theory Spec2Isabelle
  imports Main "HOL-Library.Monad_Syntax"
begin

section \<open>Data model of chess\_game.py\<close>

text \<open>
  The source tags a piece with two one-letter strings: its colour (\<open>'w'\<close>, \<open>'b'\<close>) and
  its kind (\<open>'K'\<close>, \<open>'Q'\<close>, \<open>'R'\<close>, \<open>'B'\<close>, \<open>'N'\<close>, \<open>'P'\<close>). Both are closed sets of
  tags, modelled as datatypes. A board is a list of rows, each row a list of optional
  pieces (\<open>None\<close> for an empty square), a move is a pair of (row, column) pairs of
  Python integers.

  Every function of the model returns an \<open>option\<close>: \<open>None\<close> stands for a call that
  does not return a value, because a list index is out of range (Python's IndexError)
  or because a loop does not end.
\<close>

datatype color = White | Black

datatype kind = King | Queen | Rook | Bishop | Knight | Pawn

datatype piece = Piece (color: color) (kind: kind)

type_synonym board = "piece option list list"

type_synonym square = "int \<times> int"

type_synonym move = "square \<times> square"

definition ROWS :: int where
  "ROWS = 8"

definition COLS :: int where
  "COLS = 8"

fun PIECE_VALUES :: "kind \<Rightarrow> int" where
  "PIECE_VALUES King = 0"
| "PIECE_VALUES Queen = 9"
| "PIECE_VALUES Rook = 5"
| "PIECE_VALUES Bishop = 3"
| "PIECE_VALUES Knight = 3"
| "PIECE_VALUES Pawn = 1"

subsection \<open>Python lists\<close>

text \<open>
  \<open>xs[i]\<close>: a negative index counts from the end, an index outside
  \<open>-len(xs) .. len(xs) - 1\<close> raises IndexError.
\<close>

definition py_index :: "'a list \<Rightarrow> int \<Rightarrow> nat option" where
  "py_index xs i =
     (if 0 \<le> i \<and> i < int (length xs) then Some (nat i)
      else if i < 0 \<and> - int (length xs) \<le> i then Some (nat (int (length xs) + i))
      else None)"

definition py_get :: "'a list \<Rightarrow> int \<Rightarrow> 'a option" where
  "py_get xs i = do { j \<leftarrow> py_index xs i; Some (xs ! j) }"

definition py_set :: "'a list \<Rightarrow> int \<Rightarrow> 'a \<Rightarrow> 'a list option" where
  "py_set xs i v = do { j \<leftarrow> py_index xs i; Some (xs[j := v]) }"

text \<open>\<open>board[r][c]\<close> read, and \<open>board[r][c] = v\<close> on a board whose rows are not shared.\<close>

definition get_sq :: "board \<Rightarrow> int \<Rightarrow> int \<Rightarrow> piece option option" where
  "get_sq board r c = do { row \<leftarrow> py_get board r; py_get row c }"

definition set_sq :: "board \<Rightarrow> int \<Rightarrow> int \<Rightarrow> piece option \<Rightarrow> board option" where
  "set_sq board r c v =
     do { row \<leftarrow> py_get board r; row' \<leftarrow> py_set row c v; py_set board r row' }"

text \<open>
  \<open>for x in xs: body\<close> with the variables the body assigns passed as a state, and the
  same loop left by a \<open>return\<close> from its body (\<open>Some v\<close> from the body is the returned
  value, \<open>None\<close> goes on with the next element).
\<close>

fun for_each :: "'a list \<Rightarrow> ('a \<Rightarrow> 's \<Rightarrow> 's option) \<Rightarrow> 's \<Rightarrow> 's option" where
  "for_each [] body s = Some s"
| "for_each (x # xs) body s = do { s' \<leftarrow> body x s; for_each xs body s' }"

fun for_return :: "'a list \<Rightarrow> ('a \<Rightarrow> 'b option option) \<Rightarrow> 'b option option" where
  "for_return [] body = Some None"
| "for_return (x # xs) body =
     do { res \<leftarrow> body x;
          case res of Some v \<Rightarrow> Some (Some v) | None \<Rightarrow> for_return xs body }"

text \<open>\<open>a and b\<close> where evaluating \<open>b\<close> may raise: \<open>b\<close> is not evaluated when \<open>a\<close> is false.\<close>

definition and_then :: "bool \<Rightarrow> bool option \<Rightarrow> bool option" where
  "and_then a b = (if a then b else Some False)"

section \<open>Game logic\<close>

definition initial_board :: "board option" where
  "initial_board = do {
     let board = replicate (nat ROWS) (replicate (nat COLS) None);
     let order = [Rook, Knight, Bishop, Queen, King, Bishop, Knight, Rook];
     board \<leftarrow> for_each (zip [0 ..< length order] order) (\<lambda>(c, k) board. do {
         board \<leftarrow> set_sq board 0 (int c) (Some (Piece Black k));
         set_sq board 7 (int c) (Some (Piece White k)) }) board;
     for_each [0 .. COLS - 1] (\<lambda>c board. do {
         board \<leftarrow> set_sq board 1 c (Some (Piece Black Pawn));
         set_sq board 6 c (Some (Piece White Pawn)) }) board }"

definition in_bounds :: "int \<Rightarrow> int \<Rightarrow> bool" where
  "in_bounds r c \<longleftrightarrow> 0 \<le> r \<and> r < ROWS \<and> 0 \<le> c \<and> c < COLS"

definition find_king :: "board \<Rightarrow> color \<Rightarrow> square option option" where
  "find_king board col =
     for_return [0 .. ROWS - 1] (\<lambda>r.
       for_return [0 .. COLS - 1] (\<lambda>c. do {
         p \<leftarrow> get_sq board r c;
         Some (case p of
                 None \<Rightarrow> None
               | Some p \<Rightarrow> if color p = col \<and> kind p = King then Some (r, c) else None) }))"

definition clone_board :: "board \<Rightarrow> board" where
  "clone_board board =
     map (map (\<lambda>p. case p of Some p \<Rightarrow> Some (Piece (color p) (kind p)) | None \<Rightarrow> None)) board"

fun make_move :: "board \<Rightarrow> move \<Rightarrow> board option" where
  "make_move board ((r1, c1), (r2, c2)) = do {
     let newb = clone_board board;
     piece \<leftarrow> get_sq newb r1 c1;
     newb \<leftarrow> set_sq newb r1 c1 None;
     newb \<leftarrow> set_sq newb r2 c2 piece;
     case piece of
       None \<Rightarrow> Some newb
     | Some p \<Rightarrow>
         if kind p = Pawn then do {
           newb \<leftarrow> (if color p = White \<and> r2 = 0
                    then set_sq newb r2 c2 (Some (Piece White Queen)) else Some newb);
           (if color p = Black \<and> r2 = ROWS - 1
            then set_sq newb r2 c2 (Some (Piece Black Queen)) else Some newb) }
         else Some newb }"

declare make_move.simps [simp del]

subsection \<open>Per-piece generators\<close>

text \<open>
  Each generator appends to the list \<open>moves\<close> it is given; the model returns the
  extended list.
\<close>

definition is_empty_sq :: "board \<Rightarrow> int \<Rightarrow> int \<Rightarrow> bool option" where
  \<comment> \<open>\<open>board[r][c] is None\<close>\<close>
  "is_empty_sq board r c = do { q \<leftarrow> get_sq board r c; Some (q = None) }"

definition is_enemy_sq :: "board \<Rightarrow> int \<Rightarrow> int \<Rightarrow> piece \<Rightarrow> bool option" where
  \<comment> \<open>\<open>board[r][c] is not None and board[r][c].color != p.color\<close>\<close>
  "is_enemy_sq board r c p = do {
     q \<leftarrow> get_sq board r c;
     case q of None \<Rightarrow> Some False
     | Some _ \<Rightarrow> do { q' \<leftarrow> get_sq board r c;
                     case q' of None \<Rightarrow> None | Some q' \<Rightarrow> Some (color q' \<noteq> color p) } }"

definition free_or_enemy :: "piece option \<Rightarrow> piece \<Rightarrow> bool" where
  \<comment> \<open>\<open>q is None or q.color != p.color\<close>\<close>
  "free_or_enemy q p = (case q of None \<Rightarrow> True | Some q \<Rightarrow> color q \<noteq> color p)"

definition pawn_moves :: "board \<Rightarrow> int \<Rightarrow> int \<Rightarrow> piece \<Rightarrow> move list \<Rightarrow> move list option" where
  "pawn_moves board r c p moves = do {
     let dir = (if color p = White then - 1 else 1);
     let start_row = (if color p = White then 6 else 1);
     let nr = r + dir;
     fwd \<leftarrow> and_then (in_bounds nr c) (is_empty_sq board nr c);
     moves \<leftarrow> (if fwd then do {
         let moves = moves @ [((r, c), (nr, c))];
         let nr2 = r + 2 * dir;
         two \<leftarrow> and_then (r = start_row) (is_empty_sq board nr2 c);
         Some (if two then moves @ [((r, c), (nr2, c))] else moves) }
       else Some moves);
     for_each [- 1, 1] (\<lambda>dc moves. do {
         let nc = c + dc;
         let nr = r + dir;
         cap \<leftarrow> and_then (in_bounds nr nc) (is_enemy_sq board nr nc p);
         Some (if cap then moves @ [((r, c), (nr, nc))] else moves) }) moves }"

definition knight_moves :: "board \<Rightarrow> int \<Rightarrow> int \<Rightarrow> piece \<Rightarrow> move list \<Rightarrow> move list option" where
  "knight_moves board r c p moves = do {
     let jumps = [(2, 1), (2, - 1), (- 2, 1), (- 2, - 1), (1, 2), (1, - 2), (- 1, 2), (- 1, - 2)];
     for_each jumps (\<lambda>(dr, dc) moves. do {
         let nr = r + dr;
         let nc = c + dc;
         if \<not> in_bounds nr nc then Some moves
         else do {
           q \<leftarrow> get_sq board nr nc;
           Some (if free_or_enemy q p then moves @ [((r, c), (nr, nc))] else moves) } }) moves }"

text \<open>
  The \<open>while in_bounds(nr, nc)\<close> loop of \<open>slide_moves\<close>, for one direction. With
  \<open>dr = dc = 0\<close> on an empty square the source loop never ends, so the loop is a
  partial function: \<open>None\<close> where it does not return.
\<close>

partial_function (option) slide_ray ::
  "board \<Rightarrow> int \<Rightarrow> int \<Rightarrow> piece \<Rightarrow> int \<Rightarrow> int \<Rightarrow> int \<Rightarrow> int \<Rightarrow> move list \<Rightarrow> move list option" where
  [code]: "slide_ray board r c p dr dc nr nc moves =
     (if in_bounds nr nc then do {
        q \<leftarrow> get_sq board nr nc;
        case q of
          None \<Rightarrow> slide_ray board r c p dr dc (nr + dr) (nc + dc) (moves @ [((r, c), (nr, nc))])
        | Some q \<Rightarrow> Some (if color q \<noteq> color p then moves @ [((r, c), (nr, nc))] else moves) }
      else Some moves)"

definition slide_moves ::
  "board \<Rightarrow> int \<Rightarrow> int \<Rightarrow> piece \<Rightarrow> move list \<Rightarrow> (int \<times> int) list \<Rightarrow> move list option" where
  "slide_moves board r c p moves deltas =
     for_each deltas (\<lambda>(dr, dc) moves. slide_ray board r c p dr dc (r + dr) (c + dc) moves) moves"

definition bishop_moves :: "board \<Rightarrow> int \<Rightarrow> int \<Rightarrow> piece \<Rightarrow> move list \<Rightarrow> move list option" where
  "bishop_moves board r c p moves =
     slide_moves board r c p moves [(1, 1), (1, - 1), (- 1, 1), (- 1, - 1)]"

definition rook_moves :: "board \<Rightarrow> int \<Rightarrow> int \<Rightarrow> piece \<Rightarrow> move list \<Rightarrow> move list option" where
  "rook_moves board r c p moves =
     slide_moves board r c p moves [(1, 0), (- 1, 0), (0, 1), (0, - 1)]"

definition queen_moves :: "board \<Rightarrow> int \<Rightarrow> int \<Rightarrow> piece \<Rightarrow> move list \<Rightarrow> move list option" where
  "queen_moves board r c p moves =
     slide_moves board r c p moves
       [(1, 1), (1, - 1), (- 1, 1), (- 1, - 1), (1, 0), (- 1, 0), (0, 1), (0, - 1)]"

definition king_moves :: "board \<Rightarrow> int \<Rightarrow> int \<Rightarrow> piece \<Rightarrow> move list \<Rightarrow> move list option" where
  "king_moves board r c p moves =
     for_each [- 1, 0, 1] (\<lambda>dr moves.
       for_each [- 1, 0, 1] (\<lambda>dc moves.
         if dr = 0 \<and> dc = 0 then Some moves
         else do {
           let nr = r + dr;
           let nc = c + dc;
           if \<not> in_bounds nr nc then Some moves
           else do {
             q \<leftarrow> get_sq board nr nc;
             Some (if free_or_enemy q p then moves @ [((r, c), (nr, nc))] else moves) } }) moves) moves"

subsection \<open>Pseudo-legal moves, check, legal moves\<close>

definition generate_pseudo_legal_moves :: "board \<Rightarrow> color \<Rightarrow> move list option" where
  "generate_pseudo_legal_moves board col =
     for_each [0 .. ROWS - 1] (\<lambda>r moves.
       for_each [0 .. COLS - 1] (\<lambda>c moves. do {
         p \<leftarrow> get_sq board r c;
         case p of
           None \<Rightarrow> Some moves
         | Some p \<Rightarrow>
             if color p \<noteq> col then Some moves
             else (case kind p of
                     Pawn \<Rightarrow> pawn_moves board r c p moves
                   | Knight \<Rightarrow> knight_moves board r c p moves
                   | Bishop \<Rightarrow> bishop_moves board r c p moves
                   | Rook \<Rightarrow> rook_moves board r c p moves
                   | Queen \<Rightarrow> queen_moves board r c p moves
                   | King \<Rightarrow> king_moves board r c p moves) }) moves) []"

definition is_square_attacked :: "board \<Rightarrow> square \<Rightarrow> color \<Rightarrow> bool option" where
  "is_square_attacked board target by_color = do {
     moves \<leftarrow> generate_pseudo_legal_moves board by_color;
     hit \<leftarrow> for_return moves (\<lambda>m. Some (if snd m = target then Some True else None));
     Some (case hit of Some v \<Rightarrow> v | None \<Rightarrow> False) }"

definition is_in_check :: "board \<Rightarrow> color \<Rightarrow> bool option" where
  "is_in_check board col = do {
     king_pos \<leftarrow> find_king board col;
     case king_pos of
       None \<Rightarrow> Some False
     | Some kp \<Rightarrow> do {
         let opp = (if col = White then Black else White);
         is_square_attacked board kp opp } }"

definition generate_legal_moves :: "board \<Rightarrow> color \<Rightarrow> move list option" where
  "generate_legal_moves board col = do {
     pseudo \<leftarrow> generate_pseudo_legal_moves board col;
     for_each pseudo (\<lambda>m legal. do {
         nb \<leftarrow> make_move board m;
         chk \<leftarrow> is_in_check nb col;
         Some (if \<not> chk then legal @ [m] else legal) }) [] }"

section \<open>AI: one-ply material evaluation\<close>

definition evaluate_material :: "board \<Rightarrow> int option" where
  "evaluate_material board =
     for_each [0 .. ROWS - 1] (\<lambda>r score.
       for_each [0 .. COLS - 1] (\<lambda>c score. do {
         p \<leftarrow> get_sq board r c;
         Some (case p of
                 None \<Rightarrow> score
               | Some p \<Rightarrow> let v = PIECE_VALUES (kind p)
                           in score + (if color p = White then v else - v)) }) score) 0"

text \<open>
  \<open>random.choice(seq)\<close> raises IndexError on an empty sequence and returns
  \<open>seq[i]\<close> for a drawn index \<open>i < len(seq)\<close> otherwise. The draw is the argument
  \<open>rnd\<close>, an arbitrary natural number reduced below the length.
\<close>

definition random_choice :: "nat \<Rightarrow> 'a list \<Rightarrow> 'a option" where
  "random_choice rnd xs = (if xs = [] then None else Some (xs ! (rnd mod length xs)))"

text \<open>The loop of \<open>ai_choose_move\<close>: its state is \<open>(best_score, best_moves)\<close>.\<close>

definition ai_best :: "board \<Rightarrow> color \<Rightarrow> move list \<Rightarrow> (int option \<times> move list) option" where
  "ai_best board col legal = do {
     let sign = (if col = White then 1 else - 1);
     for_each legal (\<lambda>m (best_score, best_moves). do {
         nb \<leftarrow> make_move board m;
         e \<leftarrow> evaluate_material nb;
         let sc = e * sign;
         Some (case best_score of
                 None \<Rightarrow> (Some sc, [m])
               | Some bs \<Rightarrow>
                   if sc > bs then (Some sc, [m])
                   else if sc = bs then (best_score, best_moves @ [m])
                   else (best_score, best_moves)) }) (None, []) }"

definition ai_choose_move :: "nat \<Rightarrow> board \<Rightarrow> color \<Rightarrow> move option option" where
  "ai_choose_move rnd board col = do {
     legal \<leftarrow> generate_legal_moves board col;
     if legal = [] then Some None
     else do {
       (best_score, best_moves) \<leftarrow> ai_best board col legal;
       m \<leftarrow> (if best_moves \<noteq> [] then random_choice rnd best_moves
             else random_choice rnd legal);
       Some (Some m) } }"

section \<open>Game controller: end of game\<close>

text \<open>The fields of \<open>Game\<close> that \<open>check_game_end\<close> reads and writes.\<close>

record game =
  g_board :: board
  g_turn :: color
  game_over :: bool
  result_text :: string

definition check_game_end :: "game \<Rightarrow> game option" where
  "check_game_end g = do {
     legal \<leftarrow> generate_legal_moves (g_board g) (g_turn g);
     if legal = [] then do {
       chk \<leftarrow> is_in_check (g_board g) (g_turn g);
       if chk then
         Some (g\<lparr>game_over := True,
                 result_text := ''Checkmate! ''
                   @ (if g_turn g = Black then ''White'' else ''Black'') @ '' wins.''\<rparr>)
       else
         Some (g\<lparr>game_over := True, result_text := ''Stalemate! Draw.''\<rparr>) }
     else Some g }"

section \<open>Boards as list objects\<close>

text \<open>
  In the source a board is a list object whose items refer to eight row objects, and
  \<open>make_move\<close> assigns into rows. To state that a call leaves the caller's board
  alone, the lists are placed in a heap: a heap is the list of the list objects
  allocated so far, the address of an object is its position, a new object is
  appended. A row holds its pieces by value (no \<open>Piece\<close> is ever assigned to after
  its construction), a board holds the addresses of its rows. The functions below are
  \<open>clone_board\<close> and \<open>make_move\<close> again, on addresses.
\<close>

type_synonym addr = nat

datatype obj = Row "piece option list" | Rows "addr list"

type_synonym heap = "obj list"

definition h_row :: "heap \<Rightarrow> addr \<Rightarrow> piece option list option" where
  "h_row h a = (if a < length h then (case h ! a of Row cs \<Rightarrow> Some cs | Rows _ \<Rightarrow> None) else None)"

definition h_rows :: "heap \<Rightarrow> addr \<Rightarrow> addr list option" where
  "h_rows h a = (if a < length h then (case h ! a of Rows rs \<Rightarrow> Some rs | Row _ \<Rightarrow> None) else None)"

definition board_of :: "heap \<Rightarrow> addr \<Rightarrow> board option" where
  "board_of h a = do { rs \<leftarrow> h_rows h a; those (map (h_row h) rs) }"

definition get_sq_h :: "heap \<Rightarrow> addr \<Rightarrow> int \<Rightarrow> int \<Rightarrow> piece option option" where
  "get_sq_h h board r c = do {
     rs \<leftarrow> h_rows h board;
     ra \<leftarrow> py_get rs r;
     row \<leftarrow> h_row h ra;
     py_get row c }"

definition set_sq_h :: "heap \<Rightarrow> addr \<Rightarrow> int \<Rightarrow> int \<Rightarrow> piece option \<Rightarrow> heap option" where
  "set_sq_h h board r c v = do {
     rs \<leftarrow> h_rows h board;
     ra \<leftarrow> py_get rs r;
     row \<leftarrow> h_row h ra;
     row' \<leftarrow> py_set row c v;
     Some (h[ra := Row row']) }"

definition clone_board_h :: "heap \<Rightarrow> addr \<Rightarrow> (heap \<times> addr) option" where
  "clone_board_h h board = do {
     rs \<leftarrow> h_rows h board;
     (h, new_rows) \<leftarrow> for_each rs (\<lambda>ra (h, new_rows). do {
         row \<leftarrow> h_row h ra;
         let row' = map (\<lambda>p. case p of Some p \<Rightarrow> Some (Piece (color p) (kind p)) | None \<Rightarrow> None) row;
         Some (h @ [Row row'], new_rows @ [length h]) }) (h, []);
     Some (h @ [Rows new_rows], length h) }"

fun make_move_h :: "heap \<Rightarrow> addr \<Rightarrow> move \<Rightarrow> (heap \<times> addr) option" where
  "make_move_h h board ((r1, c1), (r2, c2)) = do {
     (h, newb) \<leftarrow> clone_board_h h board;
     piece \<leftarrow> get_sq_h h newb r1 c1;
     h \<leftarrow> set_sq_h h newb r1 c1 None;
     h \<leftarrow> set_sq_h h newb r2 c2 piece;
     h \<leftarrow> (case piece of
            None \<Rightarrow> Some h
          | Some p \<Rightarrow>
              if kind p = Pawn then do {
                h \<leftarrow> (if color p = White \<and> r2 = 0
                      then set_sq_h h newb r2 c2 (Some (Piece White Queen)) else Some h);
                (if color p = Black \<and> r2 = ROWS - 1
                 then set_sq_h h newb r2 c2 (Some (Piece Black Queen)) else Some h) }
              else Some h);
     Some (h, newb) }"

text \<open>The value of the board at an address is read off by \<open>board_of\<close> above.\<close>

section \<open>Notions used in the statements and proofs\<close>

definition wf_board :: "board \<Rightarrow> bool" where
  "wf_board board \<longleftrightarrow> length board = 8 \<and> list_all (\<lambda>row. length row = 8) board"

text \<open>The contribution of one square to the material score.\<close>

definition piece_score :: "piece option \<Rightarrow> int" where
  "piece_score q = (case q of None \<Rightarrow> 0
     | Some p \<Rightarrow> if color p = White then PIECE_VALUES (kind p) else - PIECE_VALUES (kind p))"

text \<open>
  The shape of a pseudo-legal move of colour \<open>col\<close>: both squares on the board, a piece
  of the colour on the source, no piece of the colour on the destination. A safe move
  is one of that shape after which the mover is not in check.
\<close>

definition pseudo_ok :: "board \<Rightarrow> color \<Rightarrow> move \<Rightarrow> bool" where
  "pseudo_ok b col m = (case m of ((r1, c1), (r2, c2)) \<Rightarrow>
     in_bounds r1 c1 \<and> in_bounds r2 c2
     \<and> (case get_sq b r1 c1 of Some (Some p) \<Rightarrow> color p = col | _ \<Rightarrow> False)
     \<and> (case get_sq b r2 c2 of Some (Some q) \<Rightarrow> color q \<noteq> col | Some None \<Rightarrow> True | None \<Rightarrow> False))"

definition all_ok :: "board \<Rightarrow> color \<Rightarrow> move list \<Rightarrow> bool" where
  "all_ok b col moves = list_all (pseudo_ok b col) moves"

definition safe_move :: "board \<Rightarrow> color \<Rightarrow> move \<Rightarrow> bool" where
  "safe_move b col m \<longleftrightarrow> pseudo_ok b col m \<and>
     (case make_move b m of None \<Rightarrow> False
      | Some nb \<Rightarrow> wf_board nb \<and> is_in_check nb col = Some False)"

text \<open>
  The score the move selector gives a move: the material after the move, signed so
  that higher is better for the colour.
\<close>

definition signed_score :: "board \<Rightarrow> color \<Rightarrow> move \<Rightarrow> int option" where
  "signed_score b col m = do {
     nb \<leftarrow> make_move b m;
     e \<leftarrow> evaluate_material nb;
     Some (e * (if col = White then 1 else - 1)) }"

text \<open>The state of the loop after the moves \<open>seen\<close>, whose scores are given by \<open>f\<close>.\<close>

definition best_of :: "(move \<Rightarrow> int) \<Rightarrow> move list \<Rightarrow> int option \<times> move list \<Rightarrow> bool" where
  "best_of f seen st = (case st of (bs, bm) \<Rightarrow>
     (case bs of
        None \<Rightarrow> seen = [] \<and> bm = []
      | Some v \<Rightarrow> bm \<noteq> [] \<and> list_all (\<lambda>m. f m \<le> v) seen \<and> bm = filter (\<lambda>m. f m = v) seen))"

text \<open>
  The heap that holds \<open>h\<close> followed by the rows of a board \<open>b\<close> and the board
  itself, as \<open>clone_board\<close> allocates them.
\<close>

definition layout :: "heap \<Rightarrow> board \<Rightarrow> heap" where
  "layout h b = h @ map Row b @ [Rows [length h ..< length h + length b]]"

section \<open>Test positions\<close>

text \<open>
  The starting position, written out; a White pawn on d7 next to a Black knight on
  e8, with a White rook on e4 and the two kings; and a White pawn standing alone on
  row 0.
\<close>

definition empty_row :: "piece option list" where
  "empty_row = [None, None, None, None, None, None, None, None]"

definition start_position :: board where
  "start_position =
     [map (\<lambda>k. Some (Piece Black k)) [Rook, Knight, Bishop, Queen, King, Bishop, Knight, Rook],
      replicate 8 (Some (Piece Black Pawn)),
      empty_row, empty_row, empty_row, empty_row,
      replicate 8 (Some (Piece White Pawn)),
      map (\<lambda>k. Some (Piece White k)) [Rook, Knight, Bishop, Queen, King, Bishop, Knight, Rook]]"

definition promotion_position :: board where
  "promotion_position =
     [[None, None, None, None, Some (Piece Black Knight), None, None, Some (Piece Black King)],
      [None, None, None, Some (Piece White Pawn), None, None, None, None],
      empty_row,
      empty_row,
      [None, None, None, None, Some (Piece White Rook), None, None, None],
      empty_row,
      empty_row,
      [None, None, None, None, Some (Piece White King), None, None, None]]"

definition pawn_on_last_row :: board where
  "pawn_on_last_row =
     [[None, None, None, Some (Piece White Pawn), None, None, None, None],
      empty_row, empty_row, empty_row, empty_row, empty_row, empty_row, empty_row]"

text \<open>
  The position after 1. f3 e5 2. g4 Qh4 (White is mated), and a position in which
  Black, to move, has the lone king on a8 and no move, without being in check.
\<close>

definition fools_mate_position :: board where
  "fools_mate_position =
     [[Some (Piece Black Rook), Some (Piece Black Knight), Some (Piece Black Bishop), None,
       Some (Piece Black King), Some (Piece Black Bishop), Some (Piece Black Knight),
       Some (Piece Black Rook)],
      [Some (Piece Black Pawn), Some (Piece Black Pawn), Some (Piece Black Pawn),
       Some (Piece Black Pawn), None, Some (Piece Black Pawn), Some (Piece Black Pawn),
       Some (Piece Black Pawn)],
      empty_row,
      [None, None, None, None, Some (Piece Black Pawn), None, None, None],
      [None, None, None, None, None, None, Some (Piece White Pawn), Some (Piece Black Queen)],
      [None, None, None, None, None, Some (Piece White Pawn), None, None],
      [Some (Piece White Pawn), Some (Piece White Pawn), Some (Piece White Pawn),
       Some (Piece White Pawn), Some (Piece White Pawn), None, None, Some (Piece White Pawn)],
      map (\<lambda>k. Some (Piece White k)) [Rook, Knight, Bishop, Queen, King, Bishop, Knight, Rook]]"

definition stalemate_position :: board where
  "stalemate_position =
     [[Some (Piece Black King), None, None, None, None, None, None, None],
      [None, None, Some (Piece White Queen), None, None, None, None, None],
      empty_row, empty_row, empty_row, empty_row, empty_row,
      [None, None, None, None, None, None, None, Some (Piece White King)]]"

text \<open>A heap that holds the rows of \<open>promotion_position\<close> and, at address 8, the board.\<close>

definition position_heap :: heap where
  "position_heap = map Row promotion_position @ [Rows [0 ..< 8]]"

section \<open>Reading and writing squares of an 8 by 8 board\<close>

lemma clone_board_id: "clone_board b = b"
proof -
  have "(\<lambda>p. case p of Some p \<Rightarrow> Some (Piece (color p) (kind p)) | None \<Rightarrow> None) = (\<lambda>p. p)"
    by (rule ext) (simp split: option.split)
  then show ?thesis by (simp add: clone_board_def)
qed

lemma in_bounds_iff: "in_bounds r c \<longleftrightarrow> 0 \<le> r \<and> r < 8 \<and> 0 \<le> c \<and> c < 8"
  by (simp add: in_bounds_def ROWS_def COLS_def)

lemma py_index_in_range: "0 \<le> i \<Longrightarrow> i < int (length xs) \<Longrightarrow> py_index xs i = Some (nat i)"
  by (simp add: py_index_def)

lemma wf_board_row: "wf_board b \<Longrightarrow> i < 8 \<Longrightarrow> length (b ! i) = 8"
  by (simp add: wf_board_def list_all_length)

lemma wf_board_length: "wf_board b \<Longrightarrow> length b = 8"
  by (simp add: wf_board_def)

lemma get_sq_wf:
  assumes "wf_board b" "in_bounds r c"
  shows "get_sq b r c = Some (b ! nat r ! nat c)"
proof -
  from assms have r: "0 \<le> r" "r < 8" and c: "0 \<le> c" "c < 8" by (simp_all add: in_bounds_iff)
  have 1: "py_get b r = Some (b ! nat r)"
    using r assms(1) by (simp add: py_get_def py_index_in_range wf_board_length)
  have "length (b ! nat r) = 8" using r assms(1) by (intro wf_board_row) auto
  then have 2: "py_get (b ! nat r) c = Some (b ! nat r ! nat c)"
    using c by (simp add: py_get_def py_index_in_range)
  show ?thesis by (simp add: get_sq_def 1 2)
qed

lemma set_sq_wf:
  assumes "wf_board b" "in_bounds r c"
  shows "set_sq b r c v = Some (b[nat r := (b ! nat r)[nat c := v]])"
proof -
  from assms have r: "0 \<le> r" "r < 8" and c: "0 \<le> c" "c < 8" by (simp_all add: in_bounds_iff)
  have 1: "py_get b r = Some (b ! nat r)"
    using r assms(1) by (simp add: py_get_def py_index_in_range wf_board_length)
  have "length (b ! nat r) = 8" using r assms(1) by (intro wf_board_row) auto
  then have 2: "py_set (b ! nat r) c v = Some ((b ! nat r)[nat c := v])"
    using c by (simp add: py_set_def py_index_in_range)
  have 3: "py_set b r row = Some (b[nat r := row])" for row
    using r assms(1) by (simp add: py_set_def py_index_in_range wf_board_length)
  show ?thesis by (simp add: set_sq_def 1 2 3)
qed

lemma wf_board_update:
  assumes "wf_board b"
  shows "wf_board (b[i := (b ! i)[j := v]])"
proof -
  have "length (b[i := (b ! i)[j := v]] ! n) = 8" if "n < 8" for n
  proof (cases "n = i")
    case True
    then show ?thesis using assms that by (simp add: wf_board_length wf_board_row)
  next
    case False
    then show ?thesis using assms that by (simp add: wf_board_row)
  qed
  then show ?thesis using assms by (simp add: wf_board_def list_all_length)
qed

lemma get_set_sq:
  assumes "wf_board b" "in_bounds r c" "in_bounds r' c'" "set_sq b r c v = Some b'"
  shows "get_sq b' r' c' = (if (r', c') = (r, c) then Some v else get_sq b r' c')"
proof -
  from assms have b': "b' = b[nat r := (b ! nat r)[nat c := v]]" by (simp add: set_sq_wf)
  have wf': "wf_board b'" unfolding b' using assms(1) by (rule wf_board_update)
  from assms have r: "nat r < 8" "nat r' < 8" "nat c < 8" "nat c' < 8" by (auto simp: in_bounds_iff)
  have len: "length b = 8" "length (b ! nat r) = 8"
    using assms(1) r by (simp_all add: wf_board_length wf_board_row)
  have "b' ! nat r' ! nat c' = (if (r', c') = (r, c) then v else b ! nat r' ! nat c')"
  proof (cases "nat r' = nat r")
    case True
    then have "r' = r" using assms(2,3) unfolding in_bounds_iff by arith
    have "b' ! nat r' = (b ! nat r)[nat c := v]" using True len r by (simp add: b')
    moreover have "nat c' = nat c \<longleftrightarrow> c' = c" using assms(2,3) unfolding in_bounds_iff by arith
    ultimately show ?thesis using \<open>r' = r\<close> len r by (auto simp: nth_list_update)
  next
    case False
    then have "r' \<noteq> r" by auto
    then show ?thesis using False by (simp add: b')
  qed
  then show ?thesis
    by (simp add: get_sq_wf[OF wf' assms(3)] get_sq_wf[OF assms(1,3)])
qed

lemma set_sq_total:
  assumes "wf_board b" "in_bounds r c"
  shows "\<exists>b'. set_sq b r c v = Some b' \<and> wf_board b'"
  using assms by (simp add: set_sq_wf wf_board_update)

lemma get_sq_total: "wf_board b \<Longrightarrow> in_bounds r c \<Longrightarrow> \<exists>v. get_sq b r c = Some v"
  by (simp add: get_sq_wf)

text \<open>What a move leaves on its destination square: the moved piece, or a queen for a
  pawn of the source that lands on its last row.\<close>

lemma make_move_squares:
  assumes wf: "wf_board b" and src: "in_bounds r1 c1" and dst: "in_bounds r2 c2"
    and pc: "get_sq b r1 c1 = Some pc"
  shows "\<exists>nb. make_move b ((r1, c1), (r2, c2)) = Some nb \<and> wf_board nb
          \<and> get_sq nb r2 c2 = Some (case pc of None \<Rightarrow> None | Some p \<Rightarrow>
               if kind p = Pawn \<and> (color p = White \<and> r2 = 0 \<or> color p = Black \<and> r2 = 7)
               then Some (Piece (color p) Queen) else Some p)
          \<and> ((r1, c1) \<noteq> (r2, c2) \<longrightarrow> get_sq nb r1 c1 = Some None)
          \<and> (\<forall>r c. in_bounds r c \<longrightarrow> (r, c) \<noteq> (r1, c1) \<longrightarrow> (r, c) \<noteq> (r2, c2)
                 \<longrightarrow> get_sq nb r c = get_sq b r c)"
proof -
  obtain b1 where b1: "set_sq b r1 c1 None = Some b1" and wf1: "wf_board b1"
    using set_sq_total[OF wf src] by blast
  obtain b2 where b2: "set_sq b1 r2 c2 pc = Some b2" and wf2: "wf_board b2"
    using set_sq_total[OF wf1 dst] by blast
  note g1 = get_set_sq[OF wf src _ b1]
  note g2 = get_set_sq[OF wf1 dst _ b2]
  let ?promo = "\<exists>p. pc = Some p \<and> kind p = Pawn \<and> (color p = White \<and> r2 = 0 \<or> color p = Black \<and> r2 = 7)"
  show ?thesis
  proof (cases ?promo)
    case False
    then have mm: "make_move b ((r1, c1), (r2, c2)) = Some b2"
      using pc b1 b2 by (cases pc) (auto simp: make_move.simps clone_board_id ROWS_def)
    have "get_sq b2 r2 c2 = Some pc" using g2[OF dst] by simp
    moreover have "(r1, c1) \<noteq> (r2, c2) \<Longrightarrow> get_sq b2 r1 c1 = Some None"
      using g2[OF src] g1[OF src] by auto
    moreover have "in_bounds r c \<Longrightarrow> (r, c) \<noteq> (r1, c1) \<Longrightarrow> (r, c) \<noteq> (r2, c2)
        \<Longrightarrow> get_sq b2 r c = get_sq b r c" for r c
      using g2[of r c] g1[of r c] by auto
    ultimately show ?thesis using False mm wf2 by (cases pc) auto
  next
    case True
    then obtain p where p: "pc = Some p" "kind p = Pawn"
      "color p = White \<and> r2 = 0 \<or> color p = Black \<and> r2 = 7" by blast
    obtain b3 where b3: "set_sq b2 r2 c2 (Some (Piece (color p) Queen)) = Some b3"
      and wf3: "wf_board b3"
      using set_sq_total[OF wf2 dst] by blast
    note g3 = get_set_sq[OF wf2 dst _ b3]
    have mm: "make_move b ((r1, c1), (r2, c2)) = Some b3"
      using p pc b1 b2 b3 by (cases "color p") (auto simp: make_move.simps clone_board_id ROWS_def)
    have "get_sq b3 r2 c2 = Some (Some (Piece (color p) Queen))" using g3[OF dst] by simp
    moreover have "(r1, c1) \<noteq> (r2, c2) \<Longrightarrow> get_sq b3 r1 c1 = Some None"
      using g3[OF src] g2[OF src] g1[OF src] by auto
    moreover have "in_bounds r c \<Longrightarrow> (r, c) \<noteq> (r1, c1) \<Longrightarrow> (r, c) \<noteq> (r2, c2)
        \<Longrightarrow> get_sq b3 r c = get_sq b r c" for r c
      using g3[of r c] g2[of r c] g1[of r c] by auto
    ultimately show ?thesis using p mm wf3 by auto
  qed
qed

section \<open>Loops\<close>

lemma for_each_cong:
  "(\<And>x s. x \<in> set xs \<Longrightarrow> body x s = body' x s) \<Longrightarrow> for_each xs body s = for_each xs body' s"
proof (induction xs arbitrary: s)
  case Nil
  show ?case by simp
next
  case (Cons x xs)
  have "for_each xs body = for_each xs body'"
    by (rule ext) (rule Cons.IH, rule Cons.prems, simp)
  moreover have "body x s = body' x s" by (rule Cons.prems) simp
  ultimately show ?case by simp
qed

lemma for_each_add:
  "for_each xs (\<lambda>x s. Some (s + f x)) s = Some (s + sum_list (map f xs))"
  by (induction xs arbitrary: s) (simp_all add: add.assoc)

lemma for_each_inv:
  assumes "I s" and "\<And>x s. x \<in> set xs \<Longrightarrow> I s \<Longrightarrow> \<exists>s'. body x s = Some s' \<and> I s'"
  shows "\<exists>s'. for_each xs body s = Some s' \<and> I s'"
  using assms
proof (induction xs arbitrary: s)
  case Nil
  then show ?case by simp
next
  case (Cons x xs)
  obtain s1 where s1: "body x s = Some s1" "I s1" using Cons.prems by force
  have "\<exists>s'. for_each xs body s1 = Some s' \<and> I s'"
    by (rule Cons.IH[OF s1(2)]) (rule Cons.prems(2), simp_all)
  then show ?case using s1 by simp
qed

lemma for_return_total:
  assumes "\<And>x. x \<in> set xs \<Longrightarrow> \<exists>v. body x = Some v"
  shows "\<exists>v. for_return xs body = Some v"
  using assms
proof (induction xs)
  case Nil
  show ?case by simp
next
  case (Cons x xs)
  obtain v where v: "body x = Some v" using Cons.prems by force
  have "\<exists>v. for_return xs body = Some v" by (rule Cons.IH) (rule Cons.prems, simp)
  then show ?case using v by (cases v) auto
qed

lemma bind_ok:
  assumes "\<exists>x. A = Some x \<and> I x" and "\<And>x. I x \<Longrightarrow> \<exists>y. F x = Some y \<and> J y"
  shows "\<exists>y. (A \<bind> F) = Some y \<and> J y"
  using assms by auto

lemma upto_rows_cols: "[0..ROWS - 1] = [0..7]" "[0..COLS - 1] = [0..7]"
  by (simp_all only: ROWS_def COLS_def) simp_all

lemma in_bounds_upto: "r \<in> set [0..7] \<Longrightarrow> c \<in> set [0..7] \<Longrightarrow> in_bounds r c"
  by (simp add: in_bounds_iff)

section \<open>Applying a move\<close>

text \<open>
  Claim C10. On an 8 by 8 board, \<open>make_move\<close> returns a board for every move whose
  source and destination are inside the board. When the source square is empty, no
  promotion takes place: in the result the source and the destination are both empty
  (a piece on the destination is erased) and every other square is as before.
\<close>

theorem make_move_total_empty_source:
  assumes "wf_board b" and "in_bounds r1 c1" and "in_bounds r2 c2"
  shows "\<exists>nb. make_move b ((r1, c1), (r2, c2)) = Some nb \<and>
           (get_sq b r1 c1 = Some None \<longrightarrow>
              get_sq nb r1 c1 = Some None \<and> get_sq nb r2 c2 = Some None \<and>
              (\<forall>r c. in_bounds r c \<longrightarrow> (r, c) \<noteq> (r1, c1) \<longrightarrow> (r, c) \<noteq> (r2, c2)
                 \<longrightarrow> get_sq nb r c = get_sq b r c))"
proof -
  obtain pc where pc: "get_sq b r1 c1 = Some pc"
    using get_sq_total[OF assms(1,2)] by blast
  obtain nb where nb: "make_move b ((r1, c1), (r2, c2)) = Some nb"
    and dst: "get_sq nb r2 c2 = Some (case pc of None \<Rightarrow> None | Some p \<Rightarrow>
               if kind p = Pawn \<and> (color p = White \<and> r2 = 0 \<or> color p = Black \<and> r2 = 7)
               then Some (Piece (color p) Queen) else Some p)"
    and src: "(r1, c1) \<noteq> (r2, c2) \<longrightarrow> get_sq nb r1 c1 = Some None"
    and frame: "\<forall>r c. in_bounds r c \<longrightarrow> (r, c) \<noteq> (r1, c1) \<longrightarrow> (r, c) \<noteq> (r2, c2)
                 \<longrightarrow> get_sq nb r c = get_sq b r c"
    using make_move_squares[OF assms pc] by blast
  have "get_sq nb r1 c1 = Some None \<and> get_sq nb r2 c2 = Some None" if "pc = None"
    using that dst src by (cases "(r1, c1) = (r2, c2)") auto
  then show ?thesis using nb pc frame by auto
qed

theorem make_move_total_empty_source_witness:
  "wf_board promotion_position \<and> in_bounds 2 4 \<and> in_bounds 0 4 \<and> in_bounds 7 4
   \<and> get_sq promotion_position 2 4 = Some None
   \<and> get_sq promotion_position 0 4 = Some (Some (Piece Black Knight))
   \<and> (\<exists>nb. make_move promotion_position ((2, 4), (0, 4)) = Some nb
          \<and> get_sq nb 2 4 = Some None \<and> get_sq nb 0 4 = Some None
          \<and> get_sq nb 7 4 = get_sq promotion_position 7 4)"
proof -
  have h: "wf_board promotion_position" "in_bounds 2 4" "in_bounds 0 4" "in_bounds 7 4"
    by code_simp+
  have e: "get_sq promotion_position 2 4 = Some None"
    "get_sq promotion_position 0 4 = Some (Some (Piece Black Knight))"
    by code_simp+
  from make_move_total_empty_source[OF h(1,2,3)] e(1) h(4)
  have "\<exists>nb. make_move promotion_position ((2, 4), (0, 4)) = Some nb
          \<and> get_sq nb 2 4 = Some None \<and> get_sq nb 0 4 = Some None
          \<and> get_sq nb 7 4 = get_sq promotion_position 7 4"
    by fastforce
  then show ?thesis using h e by blast
qed

text \<open>
  Claim C4, as stated, fails for a move whose destination is its own source: a White
  pawn standing on row 0 and moved from its square to the same square becomes a queen
  there, so the source square is not empty afterwards.
\<close>

theorem promotion_source_not_empty_counterexample:
  "get_sq pawn_on_last_row 0 3 = Some (Some (Piece White Pawn))
   \<and> make_move pawn_on_last_row ((0, 3), (0, 3)) \<noteq> None
   \<and> get_sq (the (make_move pawn_on_last_row ((0, 3), (0, 3)))) 0 3
       = Some (Some (Piece White Queen))
   \<and> get_sq (the (make_move pawn_on_last_row ((0, 3), (0, 3)))) 0 3 \<noteq> Some None"
  by code_simp

text \<open>
  Claim C4, amended. On an 8 by 8 board, for a move between two squares of the board
  whose source holds a pawn: if the pawn is White and the destination row is 0, or
  Black and the destination row is 7, the destination holds a queen of the pawn's
  colour in the result; to any other row the destination holds the pawn itself; and
  the source square is empty in the result when it is not the destination.
\<close>

theorem make_move_pawn_promotion:
  assumes "wf_board b" and "in_bounds r1 c1" and "in_bounds r2 c2"
    and "get_sq b r1 c1 = Some (Some p)" and "kind p = Pawn"
  shows "\<exists>nb. make_move b ((r1, c1), (r2, c2)) = Some nb \<and>
           (if color p = White \<and> r2 = 0 \<or> color p = Black \<and> r2 = 7
            then get_sq nb r2 c2 = Some (Some (Piece (color p) Queen))
            else get_sq nb r2 c2 = Some (Some p)) \<and>
           ((r1, c1) \<noteq> (r2, c2) \<longrightarrow> get_sq nb r1 c1 = Some None)"
  using make_move_squares[OF assms(1-4)] assms(5) by auto

theorem make_move_pawn_promotion_witness:
  "wf_board promotion_position \<and> in_bounds 1 3 \<and> in_bounds 0 3
   \<and> get_sq promotion_position 1 3 = Some (Some (Piece White Pawn))
   \<and> kind (Piece White Pawn) = Pawn \<and> ((1 :: int, 3 :: int) \<noteq> (0, 3))
   \<and> (\<exists>nb. make_move promotion_position ((1, 3), (0, 3)) = Some nb
          \<and> get_sq nb 0 3 = Some (Some (Piece White Queen))
          \<and> get_sq nb 1 3 = Some None)"
proof -
  have h: "wf_board promotion_position" "in_bounds 1 3" "in_bounds 0 3"
    "get_sq promotion_position 1 3 = Some (Some (Piece White Pawn))"
    by code_simp+
  have k: "kind (Piece White Pawn) = Pawn" by simp
  from make_move_pawn_promotion[OF h k]
  have "\<exists>nb. make_move promotion_position ((1, 3), (0, 3)) = Some nb
          \<and> get_sq nb 0 3 = Some (Some (Piece White Queen))
          \<and> get_sq nb 1 3 = Some None"
    by simp
  then show ?thesis using h by simp
qed

section \<open>The initial position\<close>

lemma initial_board_eq: "initial_board = Some start_position"
  by code_simp

lemma start_wf: "wf_board start_position" by code_simp

lemma start_white: "length (filter (\<lambda>q. case q of Some p \<Rightarrow> color p = White | None \<Rightarrow> False) (concat start_position)) = 16"
  by code_simp
lemma start_black: "length (filter (\<lambda>q. case q of Some p \<Rightarrow> color p = Black | None \<Rightarrow> False) (concat start_position)) = 16"
  by code_simp
lemma start_rows:
  "map (get_sq start_position 1) [0..7] = replicate 8 (Some (Some (Piece Black Pawn)))"
  "map (get_sq start_position 6) [0..7] = replicate 8 (Some (Some (Piece White Pawn)))"
  "map (get_sq start_position 0) [0..7] = map (\<lambda>k. Some (Some (Piece Black k))) [Rook, Knight, Bishop, Queen, King, Bishop, Knight, Rook]"
  "map (get_sq start_position 7) [0..7] = map (\<lambda>k. Some (Some (Piece White k))) [Rook, Knight, Bishop, Queen, King, Bishop, Knight, Rook]"
  by code_simp+
lemma start_kings: "find_king start_position Black = Some (Some (0, 4))" "find_king start_position White = Some (Some (7, 4))"
  by code_simp+
lemma start_legal: "map_option length (generate_legal_moves start_position White) = Some 20"
  by code_simp
lemma start_eval: "evaluate_material start_position = Some 0"
  by code_simp

text \<open>
  Claim C5. \<open>initial_board\<close> returns a board with exactly 16 White and 16 Black
  pieces, Black pawns on every column of row 1 and White pawns on every column of
  row 6, the back ranks on rows 0 (Black) and 7 (White) in the order rook, knight,
  bishop, queen, king, bishop, knight, rook, so the kings on column 4; and White has
  20 legal moves on it.
\<close>

theorem initial_position:
  "\<exists>b. initial_board = Some b
     \<and> length (filter (\<lambda>q. case q of Some p \<Rightarrow> color p = White | None \<Rightarrow> False) (concat b)) = 16
     \<and> length (filter (\<lambda>q. case q of Some p \<Rightarrow> color p = Black | None \<Rightarrow> False) (concat b)) = 16
     \<and> map (get_sq b 1) [0..7] = replicate 8 (Some (Some (Piece Black Pawn)))
     \<and> map (get_sq b 6) [0..7] = replicate 8 (Some (Some (Piece White Pawn)))
     \<and> map (get_sq b 0) [0..7] = map (\<lambda>k. Some (Some (Piece Black k))) [Rook, Knight, Bishop, Queen, King, Bishop, Knight, Rook]
     \<and> map (get_sq b 7) [0..7] = map (\<lambda>k. Some (Some (Piece White k))) [Rook, Knight, Bishop, Queen, King, Bishop, Knight, Rook]
     \<and> find_king b Black = Some (Some (0, 4)) \<and> find_king b White = Some (Some (7, 4))
     \<and> map_option length (generate_legal_moves b White) = Some 20"
  by (intro exI[of _ start_position] conjI initial_board_eq start_white start_black start_rows start_kings start_legal)

section \<open>Material score\<close>

lemma evaluate_material_sum_list:
  assumes "wf_board b"
  shows "evaluate_material b =
    Some (\<Sum>r\<leftarrow>[0..7]. \<Sum>c\<leftarrow>[0..7]. piece_score (the (get_sq b r c)))"
proof -
  have inner: "for_each [0..COLS - 1] (\<lambda>c score. do {
         p \<leftarrow> get_sq b r c;
         Some (case p of
                 None \<Rightarrow> score
               | Some p \<Rightarrow> let v = PIECE_VALUES (kind p)
                           in score + (if color p = White then v else - v)) }) s
     = Some (s + (\<Sum>c\<leftarrow>[0..7]. piece_score (the (get_sq b r c))))"
    if "r \<in> set [0..7]" for r s
  proof -
    have "for_each [0..7] (\<lambda>c score. do {
         p \<leftarrow> get_sq b r c;
         Some (case p of
                 None \<Rightarrow> score
               | Some p \<Rightarrow> let v = PIECE_VALUES (kind p)
                           in score + (if color p = White then v else - v)) }) s
       = for_each [0..7] (\<lambda>c score. Some (score + piece_score (the (get_sq b r c)))) s"
    proof (rule for_each_cong)
      fix c :: int and s :: int
      assume "c \<in> set [0..7]"
      then have "in_bounds r c" using that by (rule in_bounds_upto[rotated])
      then show "get_sq b r c \<bind> (\<lambda>p. Some (case p of None \<Rightarrow> s
            | Some p \<Rightarrow> let v = PIECE_VALUES (kind p) in s + (if color p = White then v else - v)))
           = Some (s + piece_score (the (get_sq b r c)))"
        using assms by (simp add: get_sq_wf piece_score_def split: option.split)
    qed
    then show ?thesis by (simp only: for_each_add upto_rows_cols)
  qed
  have "evaluate_material b = for_each [0..7] (\<lambda>r s. Some (s + (\<Sum>c\<leftarrow>[0..7]. piece_score (the (get_sq b r c))))) 0"
    unfolding evaluate_material_def upto_rows_cols(1)
    by (rule for_each_cong) (simp only: inner)
  then show ?thesis by (simp only: for_each_add) simp
qed

lemma evaluate_material_sum:
  assumes "wf_board b"
  shows "evaluate_material b =
    Some (\<Sum>(r, c)\<in>{0..7} \<times> {0..7}. piece_score (the (get_sq b r c)))"
proof -
  have "(\<Sum>r\<leftarrow>[0..7]. \<Sum>c\<leftarrow>[0..7]. piece_score (the (get_sq b r c)))
      = (\<Sum>r\<in>{0..7}. \<Sum>c\<in>{0..7}. piece_score (the (get_sq b r c)))"
    by (simp only: sum_set_upto_conv_sum_list_int[symmetric] set_upto)
  also have "\<dots> = (\<Sum>(r, c)\<in>{0..7} \<times> {0..7}. piece_score (the (get_sq b r c)))"
    by (rule sum.cartesian_product)
  finally show ?thesis using evaluate_material_sum_list[OF assms] by simp
qed

lemma sum_two_changed:
  fixes f g :: "'a \<Rightarrow> int"
  assumes "finite S" "a \<in> S" "d \<in> S" "a \<noteq> d"
    and "\<And>x. x \<in> S \<Longrightarrow> x \<noteq> a \<Longrightarrow> x \<noteq> d \<Longrightarrow> g x = f x"
  shows "sum g S = sum f S - f a - f d + g a + g d"
proof -
  have d: "d \<in> S - {a}" using assms(3,4) by simp
  have eq: "S - {a} - {d} = S - {a, d}" by auto
  have "sum h S = h a + (h d + sum h (S - {a, d}))" for h :: "'a \<Rightarrow> int"
    using sum.remove[OF assms(1,2), of h] sum.remove[OF _ d, of h] assms(1)
    by (simp add: eq)
  from this[of g] this[of f]
  have "sum g S = g a + (g d + sum g (S - {a, d}))"
    and "sum f S = f a + (f d + sum f (S - {a, d}))" .
  moreover have "sum g (S - {a, d}) = sum f (S - {a, d})"
    by (rule sum.cong) (simp_all add: assms(5))
  ultimately show ?thesis by simp
qed

lemma in_bounds_squares: "(r, c) \<in> {0..7} \<times> {0..7} \<longleftrightarrow> in_bounds r c"
  by (auto simp: in_bounds_iff)

text \<open>The change of the material score by a move between two different squares.\<close>

lemma evaluate_material_make_move:
  assumes wf: "wf_board b" and src: "in_bounds r1 c1" and dst: "in_bounds r2 c2"
    and ne: "(r1, c1) \<noteq> (r2, c2)"
    and mm: "make_move b ((r1, c1), (r2, c2)) = Some nb"
    and wfn: "wf_board nb"
    and frame: "\<forall>r c. in_bounds r c \<longrightarrow> (r, c) \<noteq> (r1, c1) \<longrightarrow> (r, c) \<noteq> (r2, c2)
                 \<longrightarrow> get_sq nb r c = get_sq b r c"
  shows "\<exists>e e'. evaluate_material b = Some e \<and> evaluate_material nb = Some e' \<and>
     e' = e - piece_score (the (get_sq b r1 c1)) - piece_score (the (get_sq b r2 c2))
            + piece_score (the (get_sq nb r1 c1)) + piece_score (the (get_sq nb r2 c2))"
proof -
  let ?S = "{0..7::int} \<times> {0..7::int}"
  let ?f = "\<lambda>(r, c). piece_score (the (get_sq b r c))"
  let ?g = "\<lambda>(r, c). piece_score (the (get_sq nb r c))"
  have "sum ?g ?S = sum ?f ?S - ?f (r1, c1) - ?f (r2, c2) + ?g (r1, c1) + ?g (r2, c2)"
  proof (rule sum_two_changed)
    show "finite ?S" by simp
    show "(r1, c1) \<in> ?S" "(r2, c2) \<in> ?S" using src dst by (simp_all only: in_bounds_squares)
    show "(r1, c1) \<noteq> (r2, c2)" by (rule ne)
    fix x assume x: "x \<in> ?S" "x \<noteq> (r1, c1)" "x \<noteq> (r2, c2)"
    obtain r c where rc: "x = (r, c)" by (cases x)
    have "in_bounds r c" using x(1) unfolding rc by (simp only: in_bounds_squares)
    then have "get_sq nb r c = get_sq b r c" using frame x(2,3) rc by blast
    then show "?g x = ?f x" by (simp add: rc)
  qed
  then show ?thesis
    by (simp add: evaluate_material_sum[OF wf] evaluate_material_sum[OF wfn])
qed

text \<open>
  Claim C6, as stated, fails for a capture by a pawn that is promoted: the White pawn
  on d7 takes the Black knight on e8, a legal move, and becomes a queen; the score
  goes from 3 to 14, that is up by 11 and not by 3.
\<close>

theorem capture_knight_by_pawn_counterexample:
  "get_sq promotion_position 1 3 = Some (Some (Piece White Pawn))
   \<and> get_sq promotion_position 0 4 = Some (Some (Piece Black Knight))
   \<and> ((1, 3), (0, 4)) \<in> set (the (generate_legal_moves promotion_position White))
   \<and> evaluate_material promotion_position = Some 3
   \<and> Option.bind (make_move promotion_position ((1, 3), (0, 4))) evaluate_material = Some 14"
  by code_simp

text \<open>
  Claim C6, amended. The material score of the initial board is 0; and on an 8 by 8
  board, a move of a White piece from a square of the board onto a square that holds
  a Black knight raises the score by exactly 3, unless the White piece is a pawn that
  lands on row 0: it is promoted to a queen and the score rises by 11.
\<close>

theorem capture_knight_score:
  assumes "wf_board b" and "in_bounds r1 c1" and "in_bounds r2 c2"
    and "get_sq b r1 c1 = Some (Some p)" and "color p = White"
    and "get_sq b r2 c2 = Some (Some (Piece Black Knight))"
  shows "Option.bind initial_board evaluate_material = Some 0 \<and>
         (\<exists>nb e. make_move b ((r1, c1), (r2, c2)) = Some nb \<and> evaluate_material b = Some e \<and>
           evaluate_material nb = Some (if kind p = Pawn \<and> r2 = 0 then e + 11 else e + 3))"
proof -
  have ne: "(r1, c1) \<noteq> (r2, c2)" using assms(4,5,6) by auto
  obtain nb where nb: "make_move b ((r1, c1), (r2, c2)) = Some nb" and wfn: "wf_board nb"
    and d: "get_sq nb r2 c2 = Some (case Some p of None \<Rightarrow> None | Some p \<Rightarrow>
               if kind p = Pawn \<and> (color p = White \<and> r2 = 0 \<or> color p = Black \<and> r2 = 7)
               then Some (Piece (color p) Queen) else Some p)"
    and s: "(r1, c1) \<noteq> (r2, c2) \<longrightarrow> get_sq nb r1 c1 = Some None"
    and frame: "\<forall>r c. in_bounds r c \<longrightarrow> (r, c) \<noteq> (r1, c1) \<longrightarrow> (r, c) \<noteq> (r2, c2)
                 \<longrightarrow> get_sq nb r c = get_sq b r c"
    using make_move_squares[OF assms(1-4)] by blast
  from evaluate_material_make_move[OF assms(1-3) ne nb wfn frame]
  obtain e e' where e: "evaluate_material b = Some e" "evaluate_material nb = Some e'"
    "e' = e - piece_score (the (get_sq b r1 c1)) - piece_score (the (get_sq b r2 c2))
            + piece_score (the (get_sq nb r1 c1)) + piece_score (the (get_sq nb r2 c2))"
    by blast
  have "e' = (if kind p = Pawn \<and> r2 = 0 then e + 11 else e + 3)"
    using e(3) d s ne assms(4,5,6) by (cases "kind p") (auto simp: piece_score_def)
  moreover have "Option.bind initial_board evaluate_material = Some 0"
    by (simp add: initial_board_eq start_eval)
  ultimately show ?thesis using nb e by blast
qed

theorem capture_knight_score_witness:
  "wf_board promotion_position \<and> in_bounds 4 4 \<and> in_bounds 0 4
   \<and> get_sq promotion_position 4 4 = Some (Some (Piece White Rook))
   \<and> color (Piece White Rook) = White
   \<and> get_sq promotion_position 0 4 = Some (Some (Piece Black Knight))
   \<and> Option.bind initial_board evaluate_material = Some 0
   \<and> (\<exists>nb e. make_move promotion_position ((4, 4), (0, 4)) = Some nb
          \<and> evaluate_material promotion_position = Some e
          \<and> evaluate_material nb = Some (e + 3))"
proof -
  have h: "wf_board promotion_position" "in_bounds 4 4" "in_bounds 0 4"
    "get_sq promotion_position 4 4 = Some (Some (Piece White Rook))"
    by code_simp+
  have k: "color (Piece White Rook) = White" by simp
  have d: "get_sq promotion_position 0 4 = Some (Some (Piece Black Knight))" by code_simp
  from capture_knight_score[OF h k d]
  have "Option.bind initial_board evaluate_material = Some 0
     \<and> (\<exists>nb e. make_move promotion_position ((4, 4), (0, 4)) = Some nb
          \<and> evaluate_material promotion_position = Some e
          \<and> evaluate_material nb = Some (e + 3))"
    by simp
  then show ?thesis using h d by simp
qed

section \<open>Move generation\<close>

lemma is_empty_sq_wf:
  "wf_board b \<Longrightarrow> in_bounds r c \<Longrightarrow> is_empty_sq b r c = Some (b ! nat r ! nat c = None)"
  by (simp add: is_empty_sq_def get_sq_wf)

lemma is_enemy_sq_wf:
  "wf_board b \<Longrightarrow> in_bounds r c \<Longrightarrow>
   is_enemy_sq b r c p = Some (case b ! nat r ! nat c of None \<Rightarrow> False | Some q \<Rightarrow> color q \<noteq> color p)"
  by (simp add: is_enemy_sq_def get_sq_wf split: option.split)

lemma all_ok_snoc: "all_ok b col moves \<Longrightarrow> pseudo_ok b col m \<Longrightarrow> all_ok b col (moves @ [m])"
  by (simp add: all_ok_def)

lemma pseudo_ok_free:
  assumes "wf_board b" "in_bounds r c" "get_sq b r c = Some (Some p)" "in_bounds nr nc"
    and "free_or_enemy (b ! nat nr ! nat nc) p"
  shows "pseudo_ok b (color p) ((r, c), (nr, nc))"
  using assms by (auto simp: pseudo_ok_def get_sq_wf free_or_enemy_def split: option.splits)

lemma and_then_empty_wf:
  "wf_board b \<Longrightarrow> and_then (in_bounds r c) (is_empty_sq b r c)
     = Some (in_bounds r c \<and> b ! nat r ! nat c = None)"
  by (simp add: and_then_def is_empty_sq_wf)

lemma and_then_enemy_wf:
  "wf_board b \<Longrightarrow> and_then (in_bounds r c) (is_enemy_sq b r c p)
     = Some (in_bounds r c \<and> (case b ! nat r ! nat c of None \<Rightarrow> False | Some q \<Rightarrow> color q \<noteq> color p))"
  by (simp add: and_then_def is_enemy_sq_wf)

lemma pawn_moves_ok:
  assumes wf: "wf_board b" and rc: "in_bounds r c" and p: "get_sq b r c = Some (Some p)"
    and ok: "all_ok b (color p) moves"
  shows "\<exists>moves'. pawn_moves b r c p moves = Some moves' \<and> all_ok b (color p) moves'"
proof -
  define dir :: int where "dir = (if color p = White then - 1 else 1)"
  define start_row :: int where "start_row = (if color p = White then 6 else 1)"
  define fwd where "fwd \<longleftrightarrow> in_bounds (r + dir) c \<and> b ! nat (r + dir) ! nat c = None"
  let ?I = "all_ok b (color p)"
  have eq: "pawn_moves b r c p moves =
      (if fwd
       then and_then (r = start_row) (is_empty_sq b (r + 2 * dir) c) \<bind>
            (\<lambda>two. Some (if two then (moves @ [((r, c), (r + dir, c))]) @ [((r, c), (r + 2 * dir, c))]
                           else moves @ [((r, c), (r + dir, c))]))
       else Some moves) \<bind>
      for_each [- 1, 1] (\<lambda>dc moves.
         and_then (in_bounds (r + dir) (c + dc)) (is_enemy_sq b (r + dir) (c + dc) p) \<bind>
         (\<lambda>cap. Some (if cap then moves @ [((r, c), (r + dir, c + dc))] else moves)))"
    (is "_ = Option.bind ?Y ?Z")
    unfolding pawn_moves_def Let_def dir_def[symmetric] start_row_def[symmetric]
    by (simp only: and_then_empty_wf[OF wf] Option.bind.bind_lunit fwd_def)
  have Y: "\<exists>m1. ?Y = Some m1 \<and> ?I m1"
  proof (cases fwd)
    case False
    then show ?thesis using ok by simp
  next
    case True
    then have ib1: "in_bounds (r + dir) c" and e1: "b ! nat (r + dir) ! nat c = None"
      by (simp_all add: fwd_def)
    have ok1: "pseudo_ok b (color p) ((r, c), (r + dir, c))"
      using wf rc p ib1 e1 by (intro pseudo_ok_free) (simp_all add: free_or_enemy_def)
    show ?thesis
    proof (cases "r = start_row")
      case False
      then show ?thesis using True ok ok1 by (simp add: and_then_def all_ok_def)
    next
      case True
      then have ib2: "in_bounds (r + 2 * dir) c"
        using rc ib1 unfolding in_bounds_iff start_row_def dir_def by (auto split: if_splits)
      have ok2: "b ! nat (r + 2 * dir) ! nat c = None \<Longrightarrow> pseudo_ok b (color p) ((r, c), (r + 2 * dir, c))"
        using wf rc p ib2 by (intro pseudo_ok_free) (simp_all add: free_or_enemy_def)
      show ?thesis using True \<open>fwd\<close> ib2 ok ok1 ok2 wf
        by (auto simp: and_then_def is_empty_sq_wf all_ok_def)
    qed
  qed
  have Z: "\<exists>m2. ?Z m1 = Some m2 \<and> ?I m2" if "?I m1" for m1
  proof (rule for_each_inv[where I = ?I, OF that])
    fix dc :: int and s
    assume s: "?I s"
    have "pseudo_ok b (color p) ((r, c), (r + dir, c + dc))"
      if "in_bounds (r + dir) (c + dc)" "b ! nat (r + dir) ! nat (c + dc) = Some q" "color q \<noteq> color p" for q
      using wf rc p that by (intro pseudo_ok_free) (simp_all add: free_or_enemy_def)
    then show "\<exists>s'. and_then (in_bounds (r + dir) (c + dc)) (is_enemy_sq b (r + dir) (c + dc) p) \<bind>
         (\<lambda>cap. Some (if cap then s @ [((r, c), (r + dir, c + dc))] else s)) = Some s' \<and> ?I s'"
      using s by (cases "b ! nat (r + dir) ! nat (c + dc)")
        (simp_all add: and_then_enemy_wf[OF wf] all_ok_snoc)
  qed
  show ?thesis unfolding eq by (rule bind_ok[OF Y Z])
qed

text \<open>One jump or step onto \<open>(nr, nc)\<close>, as the knight and the king make it.\<close>

lemma step_ok:
  assumes wf: "wf_board b" and rc: "in_bounds r c" and p: "get_sq b r c = Some (Some p)"
    and ok: "all_ok b (color p) s"
  shows "\<exists>s'. (if \<not> in_bounds nr nc then Some s
               else get_sq b nr nc \<bind>
                    (\<lambda>q. Some (if free_or_enemy q p then s @ [((r, c), (nr, nc))] else s)))
              = Some s' \<and> all_ok b (color p) s'"
proof (cases "in_bounds nr nc")
  case False
  then show ?thesis using ok by simp
next
  case True
  have "pseudo_ok b (color p) ((r, c), (nr, nc))" if "free_or_enemy (b ! nat nr ! nat nc) p"
    using wf rc p True that by (rule pseudo_ok_free)
  then show ?thesis using True ok by (simp add: get_sq_wf[OF wf] all_ok_snoc)
qed

lemma knight_moves_ok:
  assumes wf: "wf_board b" and rc: "in_bounds r c" and p: "get_sq b r c = Some (Some p)"
    and ok: "all_ok b (color p) moves"
  shows "\<exists>moves'. knight_moves b r c p moves = Some moves' \<and> all_ok b (color p) moves'"
  unfolding knight_moves_def Let_def
proof (rule for_each_inv[where I = "all_ok b (color p)", OF ok])
  fix x :: "int \<times> int" and s
  assume s: "all_ok b (color p) s"
  obtain dr dc where x: "x = (dr, dc)" by (cases x)
  show "\<exists>s'. (case x of (dr, dc) \<Rightarrow> \<lambda>moves.
           if \<not> in_bounds (r + dr) (c + dc) then Some moves
           else get_sq b (r + dr) (c + dc) \<bind>
                (\<lambda>q. Some (if free_or_enemy q p then moves @ [((r, c), (r + dr, c + dc))] else moves))) s
         = Some s' \<and> all_ok b (color p) s'"
    unfolding x prod.case by (rule step_ok[OF wf rc p s])
qed

lemma king_moves_ok:
  assumes wf: "wf_board b" and rc: "in_bounds r c" and p: "get_sq b r c = Some (Some p)"
    and ok: "all_ok b (color p) moves"
  shows "\<exists>moves'. king_moves b r c p moves = Some moves' \<and> all_ok b (color p) moves'"
  unfolding king_moves_def Let_def
proof (rule for_each_inv[where I = "all_ok b (color p)", OF ok])
  fix dr :: int and s
  assume s: "all_ok b (color p) s"
  show "\<exists>s'. for_each [- 1, 0, 1] (\<lambda>dc moves.
           if dr = 0 \<and> dc = 0 then Some moves
           else if \<not> in_bounds (r + dr) (c + dc) then Some moves
                else get_sq b (r + dr) (c + dc) \<bind>
                     (\<lambda>q. Some (if free_or_enemy q p then moves @ [((r, c), (r + dr, c + dc))] else moves))) s
         = Some s' \<and> all_ok b (color p) s'"
  proof (rule for_each_inv[where I = "all_ok b (color p)", OF s])
    fix dc :: int and t
    assume t: "all_ok b (color p) t"
    show "\<exists>s'. (if dr = 0 \<and> dc = 0 then Some t
           else if \<not> in_bounds (r + dr) (c + dc) then Some t
                else get_sq b (r + dr) (c + dc) \<bind>
                     (\<lambda>q. Some (if free_or_enemy q p then t @ [((r, c), (r + dr, c + dc))] else t)))
         = Some s' \<and> all_ok b (color p) s'"
      using step_ok[OF wf rc p t, of "r + dr" "c + dc"] t by (cases "dr = 0 \<and> dc = 0") simp_all
  qed
qed

text \<open>
  The sliding loop ends for every direction other than \<open>(0, 0)\<close>: each step brings the
  square nearer to the edge it moves towards.
\<close>

lemma slide_ray_ok:
  assumes wf: "wf_board b" and rc: "in_bounds r c" and p: "get_sq b r c = Some (Some p)"
    and d: "dr \<noteq> 0 \<or> dc \<noteq> 0"
  shows "all_ok b (color p) moves \<Longrightarrow>
    \<exists>moves'. slide_ray b r c p dr dc nr nc moves = Some moves' \<and> all_ok b (color p) moves'"
proof (induction "nat ((if dr > 0 then 8 - nr else if dr < 0 then nr + 1 else 0)
                    + (if dc > 0 then 8 - nc else if dc < 0 then nc + 1 else 0))"
       arbitrary: nr nc moves rule: less_induct)
  case less
  show ?case
  proof (cases "in_bounds nr nc")
    case False
    then show ?thesis using less.prems by (subst slide_ray.simps) simp
  next
    case True
    show ?thesis
    proof (cases "b ! nat nr ! nat nc")
      case (Some q)
      have "pseudo_ok b (color p) ((r, c), (nr, nc))" if "color q \<noteq> color p"
        using wf rc p True that Some by (intro pseudo_ok_free) (simp_all add: free_or_enemy_def)
      then show ?thesis using True Some less.prems
        by (subst slide_ray.simps) (simp add: get_sq_wf[OF wf] all_ok_snoc)
    next
      case None
      have "pseudo_ok b (color p) ((r, c), (nr, nc))"
        using wf rc p True None by (intro pseudo_ok_free) (simp_all add: free_or_enemy_def)
      then have ok': "all_ok b (color p) (moves @ [((r, c), (nr, nc))])"
        using less.prems by (simp add: all_ok_snoc)
      have "nat ((if dr > 0 then 8 - (nr + dr) else if dr < 0 then nr + dr + 1 else 0)
                    + (if dc > 0 then 8 - (nc + dc) else if dc < 0 then nc + dc + 1 else 0))
          < nat ((if dr > 0 then 8 - nr else if dr < 0 then nr + 1 else 0)
                    + (if dc > 0 then 8 - nc else if dc < 0 then nc + 1 else 0))"
        using True d unfolding in_bounds_iff by (auto split: if_splits)
      from less.hyps[OF this ok']
      show ?thesis using True None
        by (subst slide_ray.simps) (simp add: get_sq_wf[OF wf])
    qed
  qed
qed

lemma slide_moves_ok:
  assumes wf: "wf_board b" and rc: "in_bounds r c" and p: "get_sq b r c = Some (Some p)"
    and ok: "all_ok b (color p) moves" and d: "(0, 0) \<notin> set deltas"
  shows "\<exists>moves'. slide_moves b r c p moves deltas = Some moves' \<and> all_ok b (color p) moves'"
  unfolding slide_moves_def
proof (rule for_each_inv[where I = "all_ok b (color p)", OF ok])
  fix x :: "int \<times> int" and s
  assume x: "x \<in> set deltas" and s: "all_ok b (color p) s"
  obtain dr dc where xd: "x = (dr, dc)" by (cases x)
  have "dr \<noteq> 0 \<or> dc \<noteq> 0" using x d xd by auto
  from slide_ray_ok[OF wf rc p this s]
  show "\<exists>s'. (case x of (dr, dc) \<Rightarrow> \<lambda>moves. slide_ray b r c p dr dc (r + dr) (c + dc) moves) s
          = Some s' \<and> all_ok b (color p) s'"
    unfolding xd prod.case .
qed

lemma generate_pseudo_legal_moves_ok:
  assumes wf: "wf_board b"
  shows "\<exists>ms. generate_pseudo_legal_moves b col = Some ms \<and> all_ok b col ms"
  unfolding generate_pseudo_legal_moves_def upto_rows_cols
proof (rule for_each_inv[where I = "all_ok b col"])
  show "all_ok b col []" by (simp add: all_ok_def)
next
  fix r :: int and s
  assume r: "r \<in> set [0..7]" and s: "all_ok b col s"
  show "\<exists>s'. for_each [0..7] (\<lambda>c moves. get_sq b r c \<bind> (\<lambda>p.
           case p of None \<Rightarrow> Some moves
           | Some p \<Rightarrow> if color p \<noteq> col then Some moves
               else (case kind p of
                     King \<Rightarrow> king_moves b r c p moves
                   | Queen \<Rightarrow> queen_moves b r c p moves
                   | Rook \<Rightarrow> rook_moves b r c p moves
                   | Bishop \<Rightarrow> bishop_moves b r c p moves
                   | Knight \<Rightarrow> knight_moves b r c p moves
                   | Pawn \<Rightarrow> pawn_moves b r c p moves))) s = Some s' \<and> all_ok b col s'"
  proof (rule for_each_inv[where I = "all_ok b col", OF s])
    fix c :: int and t
    assume c: "c \<in> set [0..7]" and t: "all_ok b col t"
    have rc: "in_bounds r c" using r c by (rule in_bounds_upto)
    show "\<exists>s'. get_sq b r c \<bind> (\<lambda>p.
           case p of None \<Rightarrow> Some t
           | Some p \<Rightarrow> if color p \<noteq> col then Some t
               else (case kind p of
                     King \<Rightarrow> king_moves b r c p t
                   | Queen \<Rightarrow> queen_moves b r c p t
                   | Rook \<Rightarrow> rook_moves b r c p t
                   | Bishop \<Rightarrow> bishop_moves b r c p t
                   | Knight \<Rightarrow> knight_moves b r c p t
                   | Pawn \<Rightarrow> pawn_moves b r c p t)) = Some s' \<and> all_ok b col s'"
    proof (cases "b ! nat r ! nat c")
      case None
      then show ?thesis using t by (simp add: get_sq_wf[OF wf rc])
    next
      case (Some p)
      then have p: "get_sq b r c = Some (Some p)" by (simp add: get_sq_wf[OF wf rc])
      show ?thesis
      proof (cases "color p = col")
        case False
        then show ?thesis using t by (simp add: p)
      next
        case True
        note t' = t[folded True]
        have "\<exists>s'. (case kind p of
                     King \<Rightarrow> king_moves b r c p t
                   | Queen \<Rightarrow> queen_moves b r c p t
                   | Rook \<Rightarrow> rook_moves b r c p t
                   | Bishop \<Rightarrow> bishop_moves b r c p t
                   | Knight \<Rightarrow> knight_moves b r c p t
                   | Pawn \<Rightarrow> pawn_moves b r c p t) = Some s' \<and> all_ok b (color p) s'"
          using king_moves_ok[OF wf rc p t'] knight_moves_ok[OF wf rc p t'] pawn_moves_ok[OF wf rc p t']
            slide_moves_ok[OF wf rc p t', of "[(1, 1), (1, - 1), (- 1, 1), (- 1, - 1)]"]
            slide_moves_ok[OF wf rc p t', of "[(1, 0), (- 1, 0), (0, 1), (0, - 1)]"]
            slide_moves_ok[OF wf rc p t', of "[(1, 1), (1, - 1), (- 1, 1), (- 1, - 1), (1, 0), (- 1, 0), (0, 1), (0, - 1)]"]
          by (cases "kind p") (simp_all add: bishop_moves_def rook_moves_def queen_moves_def)
        then show ?thesis using True by (simp add: p)
      qed
    qed
  qed
qed

section \<open>Check and legal moves\<close>

lemma find_king_total:
  assumes wf: "wf_board b"
  shows "\<exists>k. find_king b col = Some k"
  unfolding find_king_def upto_rows_cols
proof (rule for_return_total)
  fix r :: int assume r: "r \<in> set [0..7]"
  show "\<exists>v. for_return [0..7] (\<lambda>c. get_sq b r c \<bind> (\<lambda>p. Some (case p of None \<Rightarrow> None
          | Some p \<Rightarrow> if color p = col \<and> kind p = King then Some (r, c) else None))) = Some v"
  proof (rule for_return_total)
    fix c :: int assume "c \<in> set [0..7]"
    with r have "in_bounds r c" by (rule in_bounds_upto)
    then show "\<exists>v. get_sq b r c \<bind> (\<lambda>p. Some (case p of None \<Rightarrow> None
          | Some p \<Rightarrow> if color p = col \<and> kind p = King then Some (r, c) else None)) = Some v"
      by (simp add: get_sq_wf[OF wf])
  qed
qed

lemma is_square_attacked_total:
  assumes wf: "wf_board b"
  shows "\<exists>v. is_square_attacked b target by_color = Some v"
proof -
  obtain ms where ms: "generate_pseudo_legal_moves b by_color = Some ms"
    using generate_pseudo_legal_moves_ok[OF wf] by blast
  obtain hit where "for_return ms (\<lambda>m. Some (if snd m = target then Some True else None)) = Some hit"
    using for_return_total[of ms "\<lambda>m. Some (if snd m = target then Some True else None)"] by auto
  then show ?thesis by (simp add: is_square_attacked_def ms)
qed

lemma is_in_check_total:
  assumes wf: "wf_board b"
  shows "\<exists>v. is_in_check b col = Some v"
proof -
  obtain k where k: "find_king b col = Some k" using find_king_total[OF wf] by blast
  show ?thesis
    using is_square_attacked_total[OF wf] by (cases k) (auto simp: is_in_check_def k)
qed

lemma pseudo_ok_in_bounds:
  "pseudo_ok b col ((r1, c1), (r2, c2)) \<Longrightarrow> in_bounds r1 c1 \<and> in_bounds r2 c2"
  by (simp add: pseudo_ok_def)

lemma make_move_total_wf:
  assumes "wf_board b" "in_bounds r1 c1" "in_bounds r2 c2"
  shows "\<exists>nb. make_move b ((r1, c1), (r2, c2)) = Some nb \<and> wf_board nb"
proof -
  obtain pc where "get_sq b r1 c1 = Some pc" using get_sq_total[OF assms(1,2)] by blast
  from make_move_squares[OF assms this] show ?thesis by blast
qed

lemma generate_legal_moves_ok:
  assumes wf: "wf_board b"
  shows "\<exists>ms. generate_legal_moves b col = Some ms \<and> list_all (safe_move b col) ms"
proof -
  obtain ps where ps: "generate_pseudo_legal_moves b col = Some ps" and ok: "all_ok b col ps"
    using generate_pseudo_legal_moves_ok[OF wf] by blast
  have "\<exists>ms. for_each ps (\<lambda>m legal. make_move b m \<bind> (\<lambda>nb. is_in_check nb col \<bind>
            (\<lambda>chk. Some (if \<not> chk then legal @ [m] else legal)))) [] = Some ms
          \<and> list_all (safe_move b col) ms"
  proof (rule for_each_inv[where I = "list_all (safe_move b col)"])
    show "list_all (safe_move b col) []" by simp
  next
    fix m legal
    assume m: "m \<in> set ps" and legal: "list_all (safe_move b col) legal"
    have pm: "pseudo_ok b col m" using ok m by (simp add: all_ok_def list_all_iff)
    obtain r1 c1 r2 c2 where mm: "m = ((r1, c1), (r2, c2))" by (cases m) auto
    have "in_bounds r1 c1 \<and> in_bounds r2 c2" using pm unfolding mm by (rule pseudo_ok_in_bounds)
    then obtain nb where nb: "make_move b m = Some nb" and wfn: "wf_board nb"
      using make_move_total_wf[OF wf] unfolding mm by blast
    obtain chk where chk: "is_in_check nb col = Some chk" using is_in_check_total[OF wfn] by blast
    show "\<exists>s'. make_move b m \<bind> (\<lambda>nb. is_in_check nb col \<bind>
            (\<lambda>chk. Some (if \<not> chk then legal @ [m] else legal))) = Some s'
          \<and> list_all (safe_move b col) s'"
      using legal pm wfn by (simp add: nb chk safe_move_def)
  qed
  then show ?thesis by (simp add: generate_legal_moves_def ps)
qed

section \<open>Check without a king\<close>

lemma for_return_none:
  assumes "\<And>x. x \<in> set xs \<Longrightarrow> body x = Some None"
  shows "for_return xs body = Some None"
  using assms by (induction xs) simp_all

lemma cell_in_concat:
  assumes "wf_board b" "in_bounds r c"
  shows "b ! nat r ! nat c \<in> set (concat b)"
proof -
  from assms(2) have r: "nat r < 8" and c: "nat c < 8" by (auto simp: in_bounds_iff)
  have "b ! nat r \<in> set b" using assms(1) r by (simp add: wf_board_length)
  moreover have "b ! nat r ! nat c \<in> set (b ! nat r)"
    using assms(1) r c by (simp add: wf_board_row)
  ultimately show ?thesis by auto
qed

lemma find_king_none:
  assumes wf: "wf_board b" and no: "Some (Piece col King) \<notin> set (concat b)"
  shows "find_king b col = Some None"
  unfolding find_king_def upto_rows_cols
proof (rule for_return_none)
  fix r :: int assume r: "r \<in> set [0..7]"
  show "for_return [0..7] (\<lambda>c. get_sq b r c \<bind> (\<lambda>p. Some (case p of None \<Rightarrow> None
          | Some p \<Rightarrow> if color p = col \<and> kind p = King then Some (r, c) else None))) = Some None"
  proof (rule for_return_none)
    fix c :: int assume "c \<in> set [0..7]"
    with r have rc: "in_bounds r c" by (rule in_bounds_upto)
    have "b ! nat r ! nat c \<noteq> Some (Piece col King)"
      using cell_in_concat[OF wf rc] no by auto
    then have "\<not> (color p = col \<and> kind p = King)" if "b ! nat r ! nat c = Some p" for p
      using that by (cases p) auto
    then show "get_sq b r c \<bind> (\<lambda>p. Some (case p of None \<Rightarrow> None
          | Some p \<Rightarrow> if color p = col \<and> kind p = King then Some (r, c) else None)) = Some None"
      by (cases "b ! nat r ! nat c") (simp_all add: get_sq_wf[OF wf rc])
  qed
qed

text \<open>
  Claim C7. When \<open>find_king\<close> returns \<open>None\<close>, \<open>is_in_check\<close> returns \<open>False\<close>: it
  does not fail. That is the case on every 8 by 8 board with no king of the colour.
\<close>

theorem is_in_check_no_king:
  "(find_king b c = Some None \<longrightarrow> is_in_check b c = Some False) \<and>
   (wf_board b \<longrightarrow> Some (Piece c King) \<notin> set (concat b) \<longrightarrow>
      find_king b c = Some None \<and> is_in_check b c = Some False)"
proof -
  have 1: "is_in_check b c = Some False" if "find_king b c = Some None"
    using that by (simp add: is_in_check_def)
  have 2: "find_king b c = Some None" if "wf_board b" "Some (Piece c King) \<notin> set (concat b)"
    using that by (rule find_king_none)
  show ?thesis using 1 2 by blast
qed

theorem is_in_check_no_king_witness:
  "wf_board pawn_on_last_row \<and> Some (Piece White King) \<notin> set (concat pawn_on_last_row)
   \<and> find_king pawn_on_last_row White = Some None
   \<and> is_in_check pawn_on_last_row White = Some False"
proof -
  have h: "wf_board pawn_on_last_row" "Some (Piece White King) \<notin> set (concat pawn_on_last_row)"
    by code_simp+
  from is_in_check_no_king[of pawn_on_last_row White] h show ?thesis by blast
qed

section \<open>Legal and pseudo-legal moves\<close>

text \<open>
  Claim C1. On an 8 by 8 board, \<open>generate_legal_moves\<close> returns a list of moves,
  and applying any move of the list with \<open>make_move\<close> gives a board on which the
  mover is not in check.
\<close>

theorem legal_moves_no_self_check:
  assumes "wf_board b"
  shows "\<exists>ms. generate_legal_moves b col = Some ms \<and>
           (\<forall>m \<in> set ms. \<exists>nb. make_move b m = Some nb \<and> is_in_check nb col = Some False)"
proof -
  obtain ms where ms: "generate_legal_moves b col = Some ms" "list_all (safe_move b col) ms"
    using generate_legal_moves_ok[OF assms] by blast
  have "\<exists>nb. make_move b m = Some nb \<and> is_in_check nb col = Some False" if "m \<in> set ms" for m
    using ms(2) that by (auto simp: list_all_iff safe_move_def split: option.splits)
  then show ?thesis using ms(1) by blast
qed

theorem legal_moves_no_self_check_witness:
  "wf_board start_position \<and>
   (\<exists>ms. generate_legal_moves start_position White = Some ms \<and> ((6, 4), (4, 4)) \<in> set ms \<and>
      (\<exists>nb. make_move start_position ((6, 4), (4, 4)) = Some nb \<and> is_in_check nb White = Some False))"
proof -
  have h: "wf_board start_position" by code_simp
  have m: "((6, 4), (4, 4)) \<in> set (the (generate_legal_moves start_position White))"
    by code_simp
  from legal_moves_no_self_check[OF h, of White] m show ?thesis using h by auto
qed

text \<open>
  Claim C9. On an 8 by 8 board, \<open>generate_pseudo_legal_moves\<close> returns a list of
  moves, and each has its source and its destination on the board, a piece of the
  colour on the source, and on the destination no piece or a piece of the other colour.
\<close>

theorem pseudo_legal_moves_shape:
  assumes "wf_board b"
  shows "\<exists>ms. generate_pseudo_legal_moves b col = Some ms \<and>
           (\<forall>r1 c1 r2 c2. ((r1, c1), (r2, c2)) \<in> set ms \<longrightarrow>
              in_bounds r1 c1 \<and> in_bounds r2 c2 \<and>
              (\<exists>p. get_sq b r1 c1 = Some (Some p) \<and> color p = col) \<and>
              (get_sq b r2 c2 = Some None \<or>
               (\<exists>q. get_sq b r2 c2 = Some (Some q) \<and> color q \<noteq> col)))"
proof -
  obtain ms where ms: "generate_pseudo_legal_moves b col = Some ms" "all_ok b col ms"
    using generate_pseudo_legal_moves_ok[OF assms] by blast
  have "in_bounds r1 c1 \<and> in_bounds r2 c2 \<and>
              (\<exists>p. get_sq b r1 c1 = Some (Some p) \<and> color p = col) \<and>
              (get_sq b r2 c2 = Some None \<or>
               (\<exists>q. get_sq b r2 c2 = Some (Some q) \<and> color q \<noteq> col))"
    if "((r1, c1), (r2, c2)) \<in> set ms" for r1 c1 r2 c2
  proof -
    have "pseudo_ok b col ((r1, c1), (r2, c2))" using ms(2) that by (simp add: all_ok_def list_all_iff)
    then show ?thesis by (auto simp: pseudo_ok_def split: option.splits)
  qed
  then show ?thesis using ms(1) by blast
qed

theorem pseudo_legal_moves_shape_witness:
  "wf_board start_position \<and>
   (\<exists>ms. generate_pseudo_legal_moves start_position White = Some ms \<and> ((7, 1), (5, 2)) \<in> set ms \<and>
      in_bounds 7 1 \<and> in_bounds 5 2 \<and>
      (\<exists>p. get_sq start_position 7 1 = Some (Some p) \<and> color p = White) \<and>
      get_sq start_position 5 2 = Some None)"
proof -
  have h: "wf_board start_position" by code_simp
  have m: "((7, 1), (5, 2)) \<in> set (the (generate_pseudo_legal_moves start_position White))"
    by code_simp
  have e: "get_sq start_position 5 2 = Some None" by code_simp
  from pseudo_legal_moves_shape[OF h, of White] m e show ?thesis using h by fastforce
qed

section \<open>End of the game\<close>

text \<open>The mate position is the one the four moves of the fool's mate lead to.\<close>

lemma fools_mate_reached:
  "make_move start_position ((6, 5), (5, 5)) \<bind> (\<lambda>b. make_move b ((1, 4), (3, 4)))
     \<bind> (\<lambda>b. make_move b ((6, 6), (4, 6))) \<bind> (\<lambda>b. make_move b ((0, 3), (4, 7)))
   = Some fools_mate_position"
  by code_simp

text \<open>
  Claim C2. On an 8 by 8 board with \<open>c\<close> to move, \<open>check_game_end\<close> leaves the game
  as it is (ongoing) when \<open>c\<close> has a legal move; with no legal move it ends the game,
  as a checkmate won by the colour opposite to \<open>c\<close> when \<open>c\<close> is in check, as a
  stalemate when it is not.
\<close>

theorem check_game_end_cases:
  assumes "wf_board (g_board g)"
  shows "\<exists>legal chk. generate_legal_moves (g_board g) (g_turn g) = Some legal \<and>
           is_in_check (g_board g) (g_turn g) = Some chk \<and>
           check_game_end g = Some
             (if legal \<noteq> [] then g
              else if chk then
                g\<lparr>game_over := True,
                  result_text := ''Checkmate! ''
                    @ (case g_turn g of White \<Rightarrow> ''Black'' | Black \<Rightarrow> ''White'') @ '' wins.''\<rparr>
              else g\<lparr>game_over := True, result_text := ''Stalemate! Draw.''\<rparr>)"
proof -
  obtain legal where l: "generate_legal_moves (g_board g) (g_turn g) = Some legal"
    using generate_legal_moves_ok[OF assms] by blast
  obtain chk where c: "is_in_check (g_board g) (g_turn g) = Some chk"
    using is_in_check_total[OF assms] by blast
  have "check_game_end g = Some
             (if legal \<noteq> [] then g
              else if chk then
                g\<lparr>game_over := True,
                  result_text := ''Checkmate! ''
                    @ (case g_turn g of White \<Rightarrow> ''Black'' | Black \<Rightarrow> ''White'') @ '' wins.''\<rparr>
              else g\<lparr>game_over := True, result_text := ''Stalemate! Draw.''\<rparr>)"
    unfolding check_game_end_def l c
    by (cases "g_turn g") simp_all
  then show ?thesis using l c by blast
qed

theorem check_game_end_cases_witness:
  "wf_board fools_mate_position \<and> wf_board stalemate_position \<and> wf_board start_position
   \<and> check_game_end \<lparr>g_board = fools_mate_position, g_turn = White,
                        game_over = False, result_text = []\<rparr>
       = Some \<lparr>g_board = fools_mate_position, g_turn = White,
                game_over = True, result_text = ''Checkmate! Black wins.''\<rparr>
   \<and> check_game_end \<lparr>g_board = stalemate_position, g_turn = Black,
                        game_over = False, result_text = []\<rparr>
       = Some \<lparr>g_board = stalemate_position, g_turn = Black,
                game_over = True, result_text = ''Stalemate! Draw.''\<rparr>
   \<and> check_game_end \<lparr>g_board = start_position, g_turn = White,
                        game_over = False, result_text = []\<rparr>
       = Some \<lparr>g_board = start_position, g_turn = White,
                game_over = False, result_text = []\<rparr>"
proof -
  let ?g1 = "\<lparr>g_board = fools_mate_position, g_turn = White,
              game_over = False, result_text = []\<rparr>"
  let ?g2 = "\<lparr>g_board = stalemate_position, g_turn = Black,
              game_over = False, result_text = []\<rparr>"
  let ?g3 = "\<lparr>g_board = start_position, g_turn = White,
              game_over = False, result_text = []\<rparr>"
  have w: "wf_board fools_mate_position" "wf_board stalemate_position" "wf_board start_position"
    by code_simp+
  have l1: "generate_legal_moves fools_mate_position White = Some []" by code_simp
  have c1: "is_in_check fools_mate_position White = Some True" by code_simp
  have l2: "generate_legal_moves stalemate_position Black = Some []" by code_simp
  have c2: "is_in_check stalemate_position Black = Some False" by code_simp
  have l3: "generate_legal_moves start_position White \<noteq> Some []" by code_simp
  have "check_game_end ?g1 = Some (?g1\<lparr>game_over := True, result_text := ''Checkmate! Black wins.''\<rparr>)"
    using check_game_end_cases[of ?g1] w(1) l1 c1 by auto
  moreover have "check_game_end ?g2 = Some (?g2\<lparr>game_over := True, result_text := ''Stalemate! Draw.''\<rparr>)"
    using check_game_end_cases[of ?g2] w(2) l2 c2 by auto
  moreover have "check_game_end ?g3 = Some ?g3"
    using check_game_end_cases[of ?g3] w(3) l3 by auto
  ultimately show ?thesis using w by simp
qed

section \<open>The move selector\<close>

lemma evaluate_material_total: "wf_board b \<Longrightarrow> \<exists>e. evaluate_material b = Some e"
  by (simp add: evaluate_material_sum)

lemma signed_score_safe:
  assumes "safe_move b col m"
  shows "\<exists>s. signed_score b col' m = Some s"
proof -
  obtain nb where nb: "make_move b m = Some nb" "wf_board nb"
    using assms by (auto simp: safe_move_def split: option.splits)
  then show ?thesis using evaluate_material_total[OF nb(2)] by (auto simp: signed_score_def)
qed

lemma best_of_step:
  assumes "best_of f seen (bs, bm)"
  shows "best_of f (seen @ [x])
           (case bs of
              None \<Rightarrow> (Some (f x), [x])
            | Some v \<Rightarrow> if f x > v then (Some (f x), [x])
                        else if f x = v then (bs, bm @ [x])
                        else (bs, bm))"
proof (cases bs)
  case None
  then show ?thesis using assms by (simp add: best_of_def)
next
  case (Some v)
  then have bm: "bm \<noteq> []" and le: "list_all (\<lambda>m. f m \<le> v) seen"
    and eq: "bm = filter (\<lambda>m. f m = v) seen"
    using assms by (auto simp: best_of_def)
  consider "f x > v" | "f x = v" | "f x < v" by linarith
  then show ?thesis
  proof cases
    case 1
    have "filter (\<lambda>m. f m = f x) seen = []"
      using le 1 by (auto simp: filter_empty_conv list_all_iff)
    moreover have "list_all (\<lambda>m. f m \<le> f x) seen"
      using le 1 by (auto simp: list_all_iff)
    ultimately show ?thesis using 1 Some by (simp add: best_of_def)
  next
    case 2
    then show ?thesis using Some bm le eq by (simp add: best_of_def)
  next
    case 3
    then show ?thesis using Some bm le eq by (simp add: best_of_def)
  qed
qed

lemma ai_loop:
  assumes "\<And>m. m \<in> set xs \<Longrightarrow>
             \<exists>nb e. make_move b m = Some nb \<and> evaluate_material nb = Some e \<and> f m = e * sg"
    and "best_of f seen st"
  shows "\<exists>st'. for_each xs (\<lambda>m (best_score, best_moves). do {
         nb \<leftarrow> make_move b m;
         e \<leftarrow> evaluate_material nb;
         let sc = e * sg;
         Some (case best_score of
                 None \<Rightarrow> (Some sc, [m])
               | Some bs \<Rightarrow>
                   if sc > bs then (Some sc, [m])
                   else if sc = bs then (best_score, best_moves @ [m])
                   else (best_score, best_moves)) }) st = Some st'
     \<and> best_of f (seen @ xs) st'"
  using assms
proof (induction xs arbitrary: seen st)
  case Nil
  then show ?case by simp
next
  case (Cons x xs)
  obtain bs bm where st: "st = (bs, bm)" by (cases st)
  obtain nb e where nb: "make_move b x = Some nb" and e: "evaluate_material nb = Some e"
    and fx: "f x = e * sg"
    using Cons.prems(1)[of x] by auto
  let ?st1 = "case bs of
              None \<Rightarrow> (Some (e * sg), [x])
            | Some v \<Rightarrow> if e * sg > v then (Some (e * sg), [x])
                        else if e * sg = v then (bs, bm @ [x])
                        else (bs, bm)"
  have b1: "best_of f (seen @ [x]) ?st1"
    using best_of_step[OF Cons.prems(2)[unfolded st], of x] unfolding fx .
  have "\<exists>st'. for_each xs (\<lambda>m (best_score, best_moves). do {
         nb \<leftarrow> make_move b m;
         e \<leftarrow> evaluate_material nb;
         let sc = e * sg;
         Some (case best_score of
                 None \<Rightarrow> (Some sc, [m])
               | Some bs \<Rightarrow>
                   if sc > bs then (Some sc, [m])
                   else if sc = bs then (best_score, best_moves @ [m])
                   else (best_score, best_moves)) }) ?st1 = Some st'
     \<and> best_of f ((seen @ [x]) @ xs) st'"
    by (rule Cons.IH[OF _ b1]) (rule Cons.prems(1), simp)
  then show ?case by (simp add: st nb e Let_def)
qed

lemma ai_choose_move_result:
  assumes wf: "wf_board b"
  shows "\<exists>legal. generate_legal_moves b col = Some legal \<and> list_all (safe_move b col) legal \<and>
     (legal = [] \<longrightarrow> (\<forall>k. ai_choose_move k b col = Some None)) \<and>
     (legal \<noteq> [] \<longrightarrow> (\<exists>v bm. bm \<noteq> [] \<and>
        bm = filter (\<lambda>m. signed_score b col m = Some v) legal \<and>
        (\<forall>m \<in> set legal. \<exists>s. signed_score b col m = Some s \<and> s \<le> v) \<and>
        (\<forall>k. ai_choose_move k b col = Some (Some (bm ! (k mod length bm))))))"
proof -
  obtain legal where l: "generate_legal_moves b col = Some legal"
    and safe: "list_all (safe_move b col) legal"
    using generate_legal_moves_ok[OF wf] by blast
  define sg :: int where "sg = (if col = White then 1 else - 1)"
  define f where "f m = the (signed_score b col m)" for m
  have sc: "\<exists>nb e. make_move b m = Some nb \<and> evaluate_material nb = Some e \<and> f m = e * sg"
    and ss: "signed_score b col m = Some (f m)" if "m \<in> set legal" for m
  proof -
    have "safe_move b col m" using safe that by (simp add: list_all_iff)
    then obtain s where s: "signed_score b col m = Some s" using signed_score_safe by blast
    then show "signed_score b col m = Some (f m)" by (simp add: f_def)
    from s show "\<exists>nb e. make_move b m = Some nb \<and> evaluate_material nb = Some e \<and> f m = e * sg"
      by (auto simp: f_def sg_def signed_score_def Option.bind_eq_Some_conv)
  qed
  have "best_of f [] (None, [])" by (simp add: best_of_def)
  from ai_loop[of legal b f sg "[]" "(None, [])", OF sc this]
  obtain bs bm where best: "ai_best b col legal = Some (bs, bm)" and bo: "best_of f legal (bs, bm)"
    unfolding ai_best_def Let_def sg_def by auto
  show ?thesis
  proof (cases "legal = []")
    case True
    then show ?thesis using l safe by (simp add: ai_choose_move_def)
  next
    case False
    then obtain v where v: "bs = Some v" and bm: "bm \<noteq> []"
      and le: "list_all (\<lambda>m. f m \<le> v) legal" and eq: "bm = filter (\<lambda>m. f m = v) legal"
      using bo by (cases bs) (auto simp: best_of_def)
    have "filter (\<lambda>m. f m = v) legal = filter (\<lambda>m. signed_score b col m = Some v) legal"
      by (rule filter_cong) (simp_all add: ss)
    then have eq': "bm = filter (\<lambda>m. signed_score b col m = Some v) legal" using eq by simp
    have "\<exists>s. signed_score b col m = Some s \<and> s \<le> v" if "m \<in> set legal" for m
      using ss[OF that] le that by (simp add: list_all_iff)
    moreover have "ai_choose_move k b col = Some (Some (bm ! (k mod length bm)))" for k
      using False bm by (simp add: ai_choose_move_def l best random_choice_def)
    ultimately show ?thesis using l safe False bm eq' by blast
  qed
qed

text \<open>
  Claim C3. On an 8 by 8 board, \<open>ai_choose_move\<close> returns \<open>None\<close> exactly when
  there is no legal move. Otherwise it returns a legal move whose signed score (the
  material after the move, times 1 for White and - 1 for Black) is maximal among the
  legal moves; and every legal move of maximal score is returned for some draw of
  \<open>random.choice\<close>.
\<close>

theorem ai_choose_move_best:
  assumes "wf_board b"
  shows "\<exists>legal. generate_legal_moves b col = Some legal \<and>
     (ai_choose_move rnd b col = Some None \<longleftrightarrow> legal = []) \<and>
     (legal \<noteq> [] \<longrightarrow>
        (\<exists>m s. ai_choose_move rnd b col = Some (Some m) \<and> m \<in> set legal \<and>
           signed_score b col m = Some s \<and>
           (\<forall>m' \<in> set legal. \<exists>s'. signed_score b col m' = Some s' \<and> s' \<le> s))) \<and>
     (\<forall>m \<in> set legal.
        (\<forall>m' \<in> set legal. \<exists>s s'. signed_score b col m = Some s \<and>
            signed_score b col m' = Some s' \<and> s' \<le> s) \<longrightarrow>
        (\<exists>k. ai_choose_move k b col = Some (Some m)))"
proof -
  obtain legal where l: "generate_legal_moves b col = Some legal"
    and e: "legal = [] \<longrightarrow> (\<forall>k. ai_choose_move k b col = Some None)"
    and n: "legal \<noteq> [] \<longrightarrow> (\<exists>v bm. bm \<noteq> [] \<and>
        bm = filter (\<lambda>m. signed_score b col m = Some v) legal \<and>
        (\<forall>m \<in> set legal. \<exists>s. signed_score b col m = Some s \<and> s \<le> v) \<and>
        (\<forall>k. ai_choose_move k b col = Some (Some (bm ! (k mod length bm)))))"
    using ai_choose_move_result[OF assms, of col] by blast
  show ?thesis
  proof (cases "legal = []")
    case True
    then show ?thesis using l e by simp
  next
    case False
    then obtain v bm where bm: "bm \<noteq> []"
      and eq: "bm = filter (\<lambda>m. signed_score b col m = Some v) legal"
      and le: "\<And>m. m \<in> set legal \<Longrightarrow> \<exists>s. signed_score b col m = Some s \<and> s \<le> v"
      and ch: "\<And>k. ai_choose_move k b col = Some (Some (bm ! (k mod length bm)))"
      using n by blast
    have mem: "m \<in> set bm \<longleftrightarrow> m \<in> set legal \<and> signed_score b col m = Some v" for m
      by (subst eq) simp
    have "bm ! (rnd mod length bm) \<in> set bm" using bm by simp
    then have 1: "\<exists>m s. ai_choose_move rnd b col = Some (Some m) \<and> m \<in> set legal \<and>
           signed_score b col m = Some s \<and>
           (\<forall>m' \<in> set legal. \<exists>s'. signed_score b col m' = Some s' \<and> s' \<le> s)"
      using ch[of rnd] le mem by blast
    have 2: "\<exists>k. ai_choose_move k b col = Some (Some m)"
      if m: "m \<in> set legal"
        and mx: "\<forall>m' \<in> set legal. \<exists>s s'. signed_score b col m = Some s \<and>
            signed_score b col m' = Some s' \<and> s' \<le> s" for m
    proof -
      obtain m0 where m0: "m0 \<in> set bm" using bm by (cases bm) auto
      then have m0l: "m0 \<in> set legal" and s0: "signed_score b col m0 = Some v"
        by (simp_all add: mem)
      obtain s where s: "signed_score b col m = Some s" "s \<le> v" using le[OF m] by blast
      have "v \<le> s" using mx m0l s0 s(1) by fastforce
      then have "signed_score b col m = Some v" using s by simp
      then have "m \<in> set bm" using m by (simp add: mem)
      then obtain i where i: "i < length bm" "bm ! i = m" by (auto simp: in_set_conv_nth)
      then show ?thesis using ch[of i] by auto
    qed
    have "ai_choose_move rnd b col \<noteq> Some None" using ch[of rnd] by simp
    then show ?thesis using l False 1 2 by blast
  qed
qed

theorem ai_choose_move_best_witness:
  "wf_board promotion_position \<and> wf_board stalemate_position
   \<and> generate_legal_moves stalemate_position Black = Some []
   \<and> ai_choose_move 0 stalemate_position Black = Some None
   \<and> ai_choose_move 0 promotion_position White = Some (Some ((1, 3), (0, 4)))
   \<and> signed_score promotion_position White ((1, 3), (0, 4)) = Some 14
   \<and> (\<exists>legal. generate_legal_moves promotion_position White = Some legal \<and> legal \<noteq> []
          \<and> ((1, 3), (0, 4)) \<in> set legal
          \<and> (\<forall>m' \<in> set legal.
                \<exists>s'. signed_score promotion_position White m' = Some s' \<and> s' \<le> 14))
   \<and> (\<exists>k. ai_choose_move k promotion_position White = Some (Some ((1, 3), (0, 4))))"
proof -
  let ?P = promotion_position
  let ?M = "((1, 3), (0, 4)) :: move"
  have w: "wf_board ?P" "wf_board stalemate_position" by code_simp+
  have l0: "generate_legal_moves stalemate_position Black = Some []" by code_simp
  have a: "ai_choose_move 0 ?P White = Some (Some ?M)" by code_simp
  have s: "signed_score ?P White ?M = Some 14" by code_simp
  have mx: "list_all (\<lambda>m'. case signed_score ?P White m' of Some s' \<Rightarrow> s' \<le> 14 | None \<Rightarrow> False)
              (the (generate_legal_moves ?P White))"
    by code_simp
  have 1: "ai_choose_move 0 stalemate_position Black = Some None"
    using ai_choose_move_best[OF w(2), of Black 0] l0 by simp
  obtain legal where l: "generate_legal_moves ?P White = Some legal"
    and e: "ai_choose_move 0 ?P White = Some None \<longleftrightarrow> legal = []"
    and n: "legal \<noteq> [] \<longrightarrow>
        (\<exists>m s. ai_choose_move 0 ?P White = Some (Some m) \<and> m \<in> set legal \<and>
           signed_score ?P White m = Some s \<and>
           (\<forall>m' \<in> set legal. \<exists>s'. signed_score ?P White m' = Some s' \<and> s' \<le> s))"
    and r: "\<forall>m \<in> set legal.
        (\<forall>m' \<in> set legal. \<exists>s s'. signed_score ?P White m = Some s \<and>
            signed_score ?P White m' = Some s' \<and> s' \<le> s) \<longrightarrow>
        (\<exists>k. ai_choose_move k ?P White = Some (Some m))"
    using ai_choose_move_best[OF w(1), of White 0] by blast
  have ne: "legal \<noteq> []" using e a by simp
  have 2: "?M \<in> set legal \<and>
      (\<forall>m' \<in> set legal. \<exists>s'. signed_score ?P White m' = Some s' \<and> s' \<le> 14)"
    using n ne a s by auto
  have "\<forall>m' \<in> set legal. \<exists>s s'. signed_score ?P White ?M = Some s \<and>
            signed_score ?P White m' = Some s' \<and> s' \<le> s"
    using mx s by (auto simp: l list_all_iff split: option.splits)
  then have 3: "\<exists>k. ai_choose_move k ?P White = Some (Some ?M)" using r 2 by blast
  show ?thesis using w l0 1 a s l ne 2 3 by blast
qed

section \<open>The move on the heap\<close>

lemma h_row_append: "h_row h a = Some cs \<Longrightarrow> h_row (h @ ys) a = Some cs"
  by (auto simp: h_row_def nth_append split: if_splits)

lemma h_rows_append: "h_rows h a = Some rs \<Longrightarrow> h_rows (h @ ys) a = Some rs"
  by (auto simp: h_rows_def nth_append split: if_splits)

lemma those_map_Cons:
  "those (map f (r # rs)) = Some css \<Longrightarrow>
   \<exists>cs css'. f r = Some cs \<and> those (map f rs) = Some css' \<and> css = cs # css'"
  by (auto split: option.splits)

lemma those_map_length: "those (map f rs) = Some css \<Longrightarrow> length css = length rs"
proof (induction rs arbitrary: css)
  case Nil
  then show ?case by simp
next
  case (Cons r rs)
  from those_map_Cons[OF Cons.prems] Cons.IH show ?case by auto
qed

lemma those_map_append:
  "those (map (h_row h) rs) = Some css \<Longrightarrow> those (map (h_row (h @ ys)) rs) = Some css"
proof (induction rs arbitrary: css)
  case Nil
  then show ?case by simp
next
  case (Cons r rs)
  from those_map_Cons[OF Cons.prems]
  obtain cs css' where "h_row h r = Some cs" "those (map (h_row h) rs) = Some css'" "css = cs # css'"
    by blast
  then show ?case using Cons.IH[of css'] by (simp add: h_row_append)
qed

lemma board_of_append: "board_of h a = Some b \<Longrightarrow> board_of (h @ ys) a = Some b"
  by (auto simp: board_of_def Option.bind_eq_Some_conv h_rows_append those_map_append)

lemma clone_row_id:
  "map (\<lambda>p. case p of Some p \<Rightarrow> Some (Piece (color p) (kind p)) | None \<Rightarrow> None) row = row"
proof -
  have "(\<lambda>p. case p of Some p \<Rightarrow> Some (Piece (color p) (kind p)) | None \<Rightarrow> None) = (\<lambda>p. p)"
    by (rule ext) (simp split: option.split)
  then show ?thesis by simp
qed

lemma clone_loop:
  assumes "those (map (h_row h) rs) = Some css"
  shows "for_each rs (\<lambda>ra (h, new_rows). do {
         row \<leftarrow> h_row h ra;
         let row' = map (\<lambda>p. case p of Some p \<Rightarrow> Some (Piece (color p) (kind p)) | None \<Rightarrow> None) row;
         Some (h @ [Row row'], new_rows @ [length h]) }) (h @ ys, acc)
     = Some (h @ ys @ map Row css, acc @ [length h + length ys ..< length h + length ys + length rs])"
  using assms
proof (induction rs arbitrary: css ys acc)
  case Nil
  then show ?case by simp
next
  case (Cons r rs)
  from those_map_Cons[OF Cons.prems]
  obtain cs css' where r: "h_row h r = Some cs" and rs: "those (map (h_row h) rs) = Some css'"
    and css: "css = cs # css'"
    by blast
  show ?case
    using Cons.IH[OF rs, of "ys @ [Row cs]" "acc @ [length h + length ys]"]
    by (simp add: h_row_append[OF r] clone_row_id css upt_conv_Cons[of "length h + length ys"] del: upt_Suc)
qed

lemma clone_board_h_layout:
  assumes "board_of h a = Some b"
  shows "clone_board_h h a = Some (layout h b, length h + length b)"
proof -
  obtain rs where rs: "h_rows h a = Some rs" and b: "those (map (h_row h) rs) = Some b"
    using assms by (auto simp: board_of_def Option.bind_eq_Some_conv)
  have len: "length b = length rs"
    using b by (rule those_map_length)
  show ?thesis
    using clone_loop[OF b, of "[]" "[]"] by (simp add: clone_board_h_def rs layout_def len)
qed

lemma py_index_less: "py_index xs i = Some j \<Longrightarrow> j < length xs"
  by (auto simp: py_index_def Let_def split: if_splits)

lemma py_index_length: "length xs = length ys \<Longrightarrow> py_index xs i = py_index ys i"
  by (simp add: py_index_def)

lemma h_rows_layout: "h_rows (layout h b) (length h + length b) = Some [length h ..< length h + length b]"
  by (simp add: h_rows_def layout_def nth_append)

lemma h_row_layout: "j < length b \<Longrightarrow> h_row (layout h b) (length h + j) = Some (b ! j)"
  by (simp add: h_row_def layout_def nth_append)

lemma get_sq_h_layout: "get_sq_h (layout h b) (length h + length b) r c = get_sq b r c"
proof (cases "py_index b r")
  case None
  then have "py_index [length h ..< length h + length b] r = None"
    using py_index_length[of "[length h ..< length h + length b]" b r] by simp
  then show ?thesis using None by (simp add: get_sq_h_def get_sq_def h_rows_layout py_get_def)
next
  case (Some j)
  then have j: "j < length b" by (rule py_index_less)
  have "py_index [length h ..< length h + length b] r = Some j"
    using Some py_index_length[of "[length h ..< length h + length b]" b r] by simp
  then show ?thesis
    using Some j by (simp add: get_sq_h_def get_sq_def h_rows_layout py_get_def h_row_layout)
qed

lemma layout_update:
  assumes "j < length b"
  shows "(layout h b)[length h + j := Row row] = layout h (b[j := row])"
  using assms by (simp add: layout_def list_update_append map_update)

lemma set_sq_h_layout:
  "set_sq_h (layout h b) (length h + length b) r c v = map_option (layout h) (set_sq b r c v)"
proof (cases "py_index b r")
  case None
  then have "py_index [length h ..< length h + length b] r = None"
    using py_index_length[of "[length h ..< length h + length b]" b r] by simp
  then show ?thesis using None by (simp add: set_sq_h_def set_sq_def h_rows_layout py_get_def)
next
  case (Some j)
  then have j: "j < length b" by (rule py_index_less)
  have i: "py_index [length h ..< length h + length b] r = Some j"
    using Some py_index_length[of "[length h ..< length h + length b]" b r] by simp
  show ?thesis
  proof (cases "py_index (b ! j) c")
    case None
    then show ?thesis
      using Some i j
      by (simp add: set_sq_h_def set_sq_def h_rows_layout py_get_def py_set_def h_row_layout)
  next
    case (Some k)
    then show ?thesis
      using \<open>py_index b r = Some j\<close> i j
      by (simp add: set_sq_h_def set_sq_def h_rows_layout py_get_def py_set_def h_row_layout
            layout_update)
  qed
qed

lemma set_sq_length: "set_sq b r c v = Some b' \<Longrightarrow> length b' = length b"
  by (auto simp: set_sq_def py_set_def Option.bind_eq_Some_conv)

lemma those_map_Some: "those (map Some xs) = Some xs"
  by (induction xs) simp_all

lemma board_of_layout: "board_of (layout h b) (length h + length b) = Some b"
proof -
  have "map (h_row (layout h b)) [length h ..< length h + length b] = map Some b"
    by (rule nth_equalityI) (simp_all add: h_row_layout)
  then show ?thesis by (simp add: board_of_def h_rows_layout those_map_Some)
qed

lemma layout_prefix: "take (length h) (layout h b) = h"
  by (simp add: layout_def)

text \<open>
  The move on the heap and the move on the board value: the call allocates the rows of
  the new board behind the objects that exist, and the new board is the one that
  \<open>make_move\<close> computes from the value of the old one.
\<close>

lemma make_move_h_layout:
  assumes "board_of h a = Some b"
  shows "make_move_h h a m = map_option (\<lambda>nb. (layout h nb, length h + length b)) (make_move b m)"
proof -
  obtain r1 c1 r2 c2 where m: "m = ((r1, c1), (r2, c2))" by (cases m) auto
  note cl = clone_board_h_layout[OF assms]
  let ?a = "length h + length b"
  have set: "set_sq_h (layout h b') ?a r c v = map_option (layout h) (set_sq b' r c v)"
    if "length b' = length b" for b' r c v
    using set_sq_h_layout[of h b' r c v] that by simp
  have get: "get_sq_h (layout h b') ?a r c = get_sq b' r c" if "length b' = length b" for b' r c
    using get_sq_h_layout[of h b' r c] that by simp
  show ?thesis
  proof (cases "get_sq b r1 c1")
    case None
    then show ?thesis by (simp add: m make_move.simps cl get clone_board_id)
  next
    case pc: (Some pc)
    show ?thesis
    proof (cases "set_sq b r1 c1 None")
      case None
      then show ?thesis by (simp add: m make_move.simps cl get set clone_board_id pc)
    next
      case b1: (Some b1)
      then have l1: "length b1 = length b" by (rule set_sq_length)
      show ?thesis
      proof (cases "set_sq b1 r2 c2 pc")
        case None
        then show ?thesis by (simp add: m make_move.simps cl get set clone_board_id pc b1 l1)
      next
        case b2: (Some b2)
        then have l2: "length b2 = length b" using l1 set_sq_length by fastforce
        have l3: "length b3 = length b" if "set_sq b2 r2 c2 q = Some b3" for q b3
          using set_sq_length[OF that] l2 by simp
        show ?thesis
        proof (cases pc)
          case None
          then show ?thesis using b2 l2
            by (simp add: m make_move.simps cl get set clone_board_id pc b1 l1)
        next
          case (Some p)
          show ?thesis
          proof (cases "set_sq b2 r2 c2 (Some (Piece (color p) Queen))")
            case None
            then show ?thesis using Some b2 l2
              by (cases "color p")
                (auto simp: m make_move.simps cl get set clone_board_id pc b1 l1 ROWS_def)
          next
            case b3: (Some b3)
            then show ?thesis using Some l3[OF b3] b2 l2
              by (cases "color p")
                (auto simp: m make_move.simps cl get set clone_board_id pc b1 l1 ROWS_def)
          qed
        qed
      qed
    qed
  qed
qed

text \<open>
  Claim C8, as stated, fails for a move whose destination is its own source: the piece
  stays on the square, so the source square is not empty in the result. Here the rook
  on a8 is moved from a8 to a8.
\<close>

theorem make_move_same_square_counterexample:
  "wf_board start_position \<and> in_bounds 0 0
   \<and> get_sq start_position 0 0 = Some (Some (Piece Black Rook))
   \<and> make_move start_position ((0, 0), (0, 0)) = Some start_position"
  by code_simp

text \<open>
  Claim C8, amended. For a board object at address \<open>a\<close> of a heap, whose value is
  an 8 by 8 board \<open>b\<close>, and a move between two squares of the board, \<open>make_move\<close>
  returns a new board object and changes no object that existed before the call, so
  the board at \<open>a\<close> still has the value \<open>b\<close>. The returned board agrees with
  \<open>b\<close> on every square other than the source and the destination of the move, and
  its source square is empty when the destination is not the source itself.
\<close>

theorem make_move_frame:
  assumes "board_of h a = Some b" and "wf_board b" and "in_bounds r1 c1" and "in_bounds r2 c2"
  shows "\<exists>h' a' nb. make_move_h h a ((r1, c1), (r2, c2)) = Some (h', a') \<and>
           take (length h) h' = h \<and> board_of h' a = Some b \<and>
           board_of h' a' = Some nb \<and> make_move b ((r1, c1), (r2, c2)) = Some nb \<and>
           (\<forall>r c. in_bounds r c \<longrightarrow> (r, c) \<noteq> (r1, c1) \<longrightarrow> (r, c) \<noteq> (r2, c2)
              \<longrightarrow> get_sq nb r c = get_sq b r c) \<and>
           ((r1, c1) \<noteq> (r2, c2) \<longrightarrow> get_sq nb r1 c1 = Some None)"
proof -
  obtain pc where pc: "get_sq b r1 c1 = Some pc"
    using get_sq_total[OF assms(2,3)] by blast
  obtain nb where nb: "make_move b ((r1, c1), (r2, c2)) = Some nb" and wfn: "wf_board nb"
    and src: "(r1, c1) \<noteq> (r2, c2) \<longrightarrow> get_sq nb r1 c1 = Some None"
    and frame: "\<forall>r c. in_bounds r c \<longrightarrow> (r, c) \<noteq> (r1, c1) \<longrightarrow> (r, c) \<noteq> (r2, c2)
                 \<longrightarrow> get_sq nb r c = get_sq b r c"
    using make_move_squares[OF assms(2-4) pc] by blast
  have len: "length nb = length b" using assms(2) wfn by (simp add: wf_board_length)
  have mh: "make_move_h h a ((r1, c1), (r2, c2)) = Some (layout h nb, length h + length nb)"
    using make_move_h_layout[OF assms(1), of "((r1, c1), (r2, c2))"] nb len by simp
  have "board_of (layout h nb) a = Some b"
    unfolding layout_def using assms(1) by (rule board_of_append)
  then show ?thesis
    using mh nb src frame board_of_layout[of h nb] layout_prefix[of h nb] by blast
qed

theorem make_move_frame_witness:
  "board_of position_heap 8 = Some promotion_position \<and> wf_board promotion_position
   \<and> in_bounds 1 3 \<and> in_bounds 0 3 \<and> in_bounds 7 4
   \<and> (\<exists>h' a' nb. make_move_h position_heap 8 ((1, 3), (0, 3)) = Some (h', a')
          \<and> take (length position_heap) h' = position_heap
          \<and> board_of h' 8 = Some promotion_position
          \<and> board_of h' a' = Some nb
          \<and> make_move promotion_position ((1, 3), (0, 3)) = Some nb
          \<and> get_sq nb 7 4 = get_sq promotion_position 7 4
          \<and> get_sq nb 1 3 = Some None)"
proof -
  have h: "board_of position_heap 8 = Some promotion_position" "wf_board promotion_position"
    "in_bounds 1 3" "in_bounds 0 3"
    by code_simp+
  have k: "in_bounds 7 4" by code_simp
  from make_move_frame[OF h] k
  have "\<exists>h' a' nb. make_move_h position_heap 8 ((1, 3), (0, 3)) = Some (h', a')
          \<and> take (length position_heap) h' = position_heap
          \<and> board_of h' 8 = Some promotion_position
          \<and> board_of h' a' = Some nb
          \<and> make_move promotion_position ((1, 3), (0, 3)) = Some nb
          \<and> get_sq nb 7 4 = get_sq promotion_position 7 4
          \<and> get_sq nb 1 3 = Some None"
    by fastforce
  then show ?thesis using h k by blast
qed

end
